theory Spec2Isabelle
  imports Main
begin

section \<open>Python strings\<close>

text \<open>
  The converter \<^verbatim>\<open>docx_to_md.py\<close> works on Python \<^verbatim>\<open>str\<close> values. A \<^typ>\<open>char\<close> stands
  for one code point below 256 (the Latin-1 range), so \<^typ>\<open>string\<close> is a Python string
  over that range. \<^verbatim>\<open>str.isspace\<close>, \<^verbatim>\<open>str.lower\<close> and the regular expression
  classes \<^verbatim>\<open>\s\<close> and \<^verbatim>\<open>re.IGNORECASE\<close> are given by their tables on that range.
\<close>

definition NL :: char where
  "NL = CHR 0x0A"

definition whitespace :: "char list" where
  "whitespace = [CHR 0x09, CHR 0x0A, CHR 0x0B, CHR 0x0C, CHR 0x0D, CHR 0x1C, CHR 0x1D,
     CHR 0x1E, CHR 0x1F, CHR 0x20, CHR 0x85, CHR 0xA0]"

definition isspace :: "char \<Rightarrow> bool" where
  "isspace c = (c \<in> set whitespace)"

definition upper_chars :: "char list" where
  "upper_chars = ''ABCDEFGHIJKLMNOPQRSTUVWXYZ'' @
     [CHR 0xC0, CHR 0xC1, CHR 0xC2, CHR 0xC3, CHR 0xC4, CHR 0xC5, CHR 0xC6, CHR 0xC7,
      CHR 0xC8, CHR 0xC9, CHR 0xCA, CHR 0xCB, CHR 0xCC, CHR 0xCD, CHR 0xCE, CHR 0xCF,
      CHR 0xD0, CHR 0xD1, CHR 0xD2, CHR 0xD3, CHR 0xD4, CHR 0xD5, CHR 0xD6,
      CHR 0xD8, CHR 0xD9, CHR 0xDA, CHR 0xDB, CHR 0xDC, CHR 0xDD, CHR 0xDE]"

definition lower_chars :: "char list" where
  "lower_chars = ''abcdefghijklmnopqrstuvwxyz'' @
     [CHR 0xE0, CHR 0xE1, CHR 0xE2, CHR 0xE3, CHR 0xE4, CHR 0xE5, CHR 0xE6, CHR 0xE7,
      CHR 0xE8, CHR 0xE9, CHR 0xEA, CHR 0xEB, CHR 0xEC, CHR 0xED, CHR 0xEE, CHR 0xEF,
      CHR 0xF0, CHR 0xF1, CHR 0xF2, CHR 0xF3, CHR 0xF4, CHR 0xF5, CHR 0xF6,
      CHR 0xF8, CHR 0xF9, CHR 0xFA, CHR 0xFB, CHR 0xFC, CHR 0xFD, CHR 0xFE]"

definition lower_char :: "char \<Rightarrow> char" where
  "lower_char c = (case map_of (zip upper_chars lower_chars) c of None \<Rightarrow> c | Some d \<Rightarrow> d)"

text \<open>\<^verbatim>\<open>s.lower()\<close>\<close>

definition lower :: "string \<Rightarrow> string" where
  "lower s = map lower_char s"

text \<open>\<^verbatim>\<open>s.strip()\<close>: leading and trailing whitespace removed.\<close>

definition strip :: "string \<Rightarrow> string" where
  "strip s = rev (dropWhile isspace (rev (dropWhile isspace s)))"

text \<open>\<^verbatim>\<open>s.startswith(p)\<close> and \<^verbatim>\<open>s.endswith(p)\<close>\<close>

definition startswith :: "string \<Rightarrow> string \<Rightarrow> bool" where
  "startswith s p = (take (length p) s = p)"

definition endswith :: "string \<Rightarrow> string \<Rightarrow> bool" where
  "endswith s p = (length p \<le> length s \<and> drop (length s - length p) s = p)"

text \<open>\<^verbatim>\<open>sub in s\<close>: the substring test, scanning the start positions from the left.\<close>

fun contains :: "string \<Rightarrow> string \<Rightarrow> bool" where
  "contains sub [] = (sub = [])"
| "contains sub (c # cs) = (startswith (c # cs) sub \<or> contains sub cs)"

text \<open>\<^verbatim>\<open>sep.join(xs)\<close>\<close>

fun join :: "string \<Rightarrow> string list \<Rightarrow> string" where
  "join sep [] = []"
| "join sep [x] = x"
| "join sep (x # y # ys) = x @ sep @ join sep (y # ys)"

section \<open>Regular expression substitution\<close>

text \<open>
  \<^verbatim>\<open>re.sub(pattern, repl, s)\<close> scans \<^verbatim>\<open>s\<close> from the left. At each position it
  tries the pattern; on a match it emits the replacement and goes on behind the match,
  otherwise it copies one character and moves on. A pattern is given by its matcher: the
  length of the match that the backtracking engine finds at the start of the rest of the
  string, if any. An empty match puts the replacement in front of the next character.
\<close>

fun re_sub :: "(string \<Rightarrow> nat option) \<Rightarrow> string \<Rightarrow> string \<Rightarrow> string" where
  "re_sub m repl [] = (case m [] of None \<Rightarrow> [] | Some n \<Rightarrow> repl)"
| "re_sub m repl (c # cs) =
     (case m (c # cs) of
        None \<Rightarrow> c # re_sub m repl cs
      | Some 0 \<Rightarrow> repl @ c # re_sub m repl cs
      | Some (Suc n) \<Rightarrow> repl @ re_sub m repl (drop n cs))"

text \<open>
  \<^verbatim>\<open>$\<close> without \<^verbatim>\<open>re.MULTILINE\<close>: at the end of the string, or just before a newline that
  is the last character.
\<close>

definition at_end :: "string \<Rightarrow> bool" where
  "at_end r = (r = [] \<or> r = [NL])"

text \<open>\<^verbatim>\<open>\n{3,}\<close>: the whole run of newlines (greedy), when it has three or more.\<close>

definition m_newlines :: "string \<Rightarrow> nat option" where
  "m_newlines s =
     (let n = length (takeWhile (\<lambda>c. c = NL) s) in if 3 \<le> n then Some n else None)"

text \<open>\<^verbatim>\<open>\.docx$\<close> with \<^verbatim>\<open>re.IGNORECASE\<close>\<close>

definition m_docx_ext :: "string \<Rightarrow> nat option" where
  "m_docx_ext s =
     (if lower (take 5 s) = ''.docx'' \<and> at_end (drop 5 s) then Some 5 else None)"

text \<open>
  \<^verbatim>\<open>,?\s*Version FormulaID.*\)?$\<close> with \<^verbatim>\<open>re.IGNORECASE\<close>. The optional comma and the
  whitespace run are greedy, and giving characters back never helps, because the literal
  starts with a letter. \<^verbatim>\<open>.*\<close> takes every character up to the first newline; the
  pattern matches when \<^verbatim>\<open>$\<close> holds there, and giving characters back to \<^verbatim>\<open>\)?\<close> cannot
  make \<^verbatim>\<open>$\<close> hold earlier.
\<close>

definition m_version_suffix :: "string \<Rightarrow> nat option" where
  "m_version_suffix s =
     (let a = (if take 1 s = '','' then 1 else 0);
          b = length (takeWhile isspace (drop a s));
          r = drop (a + b) s
      in if lower (take 17 r) = ''version formulaid'' then
           (let t = drop 17 r;
                k = length (takeWhile (\<lambda>c. c \<noteq> NL) t)
            in if at_end (drop k t) then Some (a + b + 17 + k) else None)
         else None)"

section \<open>Fence language and output name\<close>

definition detect_language_from_name :: "string \<Rightarrow> string" where
  "detect_language_from_name name =
     (let lower = lower name in
      if contains ''cargo.toml'' lower \<or> contains ''rust-toolchain.toml'' lower
         \<or> contains ''config.toml'' lower then ''toml''
      else if contains ''makefile'' lower then ''makefile''
      else if contains ''.gitignore'' lower \<or> contains ''gitignore'' lower then ''gitignore''
      else '''')"

definition sanitize_basename :: "string \<Rightarrow> string" where
  "sanitize_basename basename =
     (let no_ext = re_sub m_docx_ext '''' basename;
          no_suffix = re_sub m_version_suffix '''' no_ext
      in strip no_suffix)"

section \<open>The document tree\<close>

text \<open>
  An element of the parsed document: its tag (\<^verbatim>\<open>{namespace}local\<close>), its text (\<^verbatim>\<open>None\<close>
  when absent) and its child elements in document order. \<^verbatim>\<open>iter()\<close> yields the element
  itself and then all its descendants, depth first.
\<close>

datatype xml_node = Element (tag: string) (node_text: "string option") (children: "xml_node list")

fun iter :: "xml_node \<Rightarrow> xml_node list" where
  "iter (Element t x cs) = Element t x cs # concat (map iter cs)"

text \<open>\<^verbatim>\<open>tag.split('}')[-1]\<close>\<close>

definition local_name :: "string \<Rightarrow> string" where
  "local_name t = rev (takeWhile (\<lambda>c. c \<noteq> CHR ''}'') (rev t))"

text \<open>\<^verbatim>\<open>node.text or ''\<close>\<close>

definition text_or_empty :: "xml_node \<Rightarrow> string" where
  "text_or_empty n = (case node_text n of None \<Rightarrow> '''' | Some s \<Rightarrow> s)"

text \<open>The inner loop of a paragraph: the list \<^verbatim>\<open>texts\<close>, then \<^verbatim>\<open>''.join(texts).strip()\<close>.\<close>

definition paragraph_texts :: "xml_node \<Rightarrow> string list" where
  "paragraph_texts block =
     concat (map (\<lambda>child. let ctag = local_name (tag child) in
                    if ctag = ''t'' then [text_or_empty child]
                    else if ctag = ''br'' then [[NL]]
                    else [])
            (iter block))"

definition paragraph_text :: "xml_node \<Rightarrow> string" where
  "paragraph_text block = strip (concat (paragraph_texts block))"

text \<open>The inner loop of a table: one stripped fragment for each \<^verbatim>\<open>t\<close> element in it.\<close>

definition table_cells :: "xml_node \<Rightarrow> string list" where
  "table_cells block =
     concat (map (\<lambda>cell. if local_name (tag cell) = ''t'' then [strip (text_or_empty cell)] else [])
            (iter block))"

text \<open>What one pass of the outer loop of \<^verbatim>\<open>read_docx_text_python_docx\<close> appends to \<^verbatim>\<open>parts\<close>.\<close>

definition block_parts :: "xml_node \<Rightarrow> string list" where
  "block_parts block =
     (let tag = local_name (tag block) in
      if tag = ''p'' then [paragraph_text block]
      else if tag = ''tbl'' then table_cells block @ ['''']
      else [])"

text \<open>The outer loop, \<^verbatim>\<open>for block in d.element.body.iter()\<close>: the fragment sequence.\<close>

definition body_parts :: "xml_node \<Rightarrow> string list" where
  "body_parts body = concat (map block_parts (iter body))"

section \<open>Text normalisation\<close>

text \<open>\<^verbatim>\<open>'\n'.join(p for p in parts if p is not None)\<close>\<close>

definition join_parts :: "string option list \<Rightarrow> string" where
  "join_parts parts = join [NL] (concat (map (\<lambda>p. case p of None \<Rightarrow> [] | Some s \<Rightarrow> [s]) parts))"

text \<open>\<^verbatim>\<open>re.sub(r'\n{3,}', '\n\n', text).strip()\<close>\<close>

definition normalize_text :: "string \<Rightarrow> string" where
  "normalize_text t = strip (re_sub m_newlines [NL, NL] t)"

section \<open>The two extraction paths\<close>

text \<open>
  An exception with its message. A document package is seen through the two libraries
  that open it: \<open>docx_Document\<close> is what \<^verbatim>\<open>docx.Document(path)\<close> does (it raises, or
  gives the root element \<^verbatim>\<open>d.element\<close>), \<open>zip_document_xml\<close> is what reading
  \<^verbatim>\<open>word/document.xml\<close> from the archive and parsing it does (it raises, or gives the root
  element).
\<close>

datatype error = Error string

record package =
  docx_Document :: "error + xml_node"
  zip_document_xml :: "error + xml_node"

definition w_ns :: string where
  "w_ns = ''{http://schemas.openxmlformats.org/wordprocessingml/2006/main}''"

text \<open>
  \<^verbatim>\<open>d.element.body\<close>: the first child of the root with tag \<^verbatim>\<open>w:body\<close>, \<^verbatim>\<open>None\<close> when there
  is none (calling \<^verbatim>\<open>iter\<close> on it then raises).
\<close>

definition element_body :: "xml_node \<Rightarrow> xml_node option" where
  "element_body root = find (\<lambda>c. tag c = w_ns @ ''body'') (children root)"

definition read_docx_text_python_docx :: "package \<Rightarrow> error + string" where
  "read_docx_text_python_docx pkg =
     (case docx_Document pkg of
        Inl e \<Rightarrow> Inl e
      | Inr root \<Rightarrow>
          (case element_body root of
             None \<Rightarrow> Inl (Error (CHR 0x27 # ''NoneType'' @ CHR 0x27 # '' object has no attribute '' @ CHR 0x27 # ''iter'' @ [CHR 0x27]))
           | Some body \<Rightarrow>
               (let parts = body_parts body;
                    text = join_parts (map Some parts)
                in Inr (normalize_text text))))"

text \<open>\<^verbatim>\<open>root.findall('.//w:p', ns)\<close>: the proper descendants of the root with tag \<^verbatim>\<open>w:p\<close>.\<close>

definition findall_w_p :: "xml_node \<Rightarrow> xml_node list" where
  "findall_w_p root = filter (\<lambda>e. tag e = w_ns @ ''p'') (concat (map iter (children root)))"

definition read_docx_text_zipxml :: "package \<Rightarrow> error + string" where
  "read_docx_text_zipxml pkg =
     (case zip_document_xml pkg of
        Inl e \<Rightarrow> Inl e
      | Inr root \<Rightarrow>
          (let parts = map paragraph_text (findall_w_p root);
               text = join [NL] parts
           in Inr (normalize_text text)))"

text \<open>\<^verbatim>\<open>read_docx_text\<close>, with the module's flag \<^verbatim>\<open>HAS_PYTHON_DOCX\<close> as a parameter.\<close>

definition read_docx_text :: "bool \<Rightarrow> package \<Rightarrow> error + string" where
  "read_docx_text has_python_docx pkg =
     (if has_python_docx then
        (case read_docx_text_python_docx pkg of
           Inr text \<Rightarrow> Inr text
         | Inl e \<Rightarrow> read_docx_text_zipxml pkg)
      else read_docx_text_zipxml pkg)"

section \<open>Converting one input and the batch loop\<close>

text \<open>
  The outside world of the script. A file is a document package, or a Markdown file that
  the script wrote, which neither library can open. \<open>open_error\<close> says what
  \<^verbatim>\<open>open(path, "w")\<close> raises for a path, if anything; \<open>utcnow\<close> is the clock, read
  once for each header written, with \<open>ticks\<close> counting the readings.
\<close>

datatype fs_file = Package_file package | Markdown_file string

record world =
  files :: "string \<Rightarrow> fs_file option"
  open_error :: "string \<Rightarrow> error option"
  utcnow :: "nat \<Rightarrow> string"
  ticks :: nat
  HAS_PYTHON_DOCX :: bool

definition not_a_package :: "string \<Rightarrow> package" where
  "not_a_package path =
     \<lparr>docx_Document = Inl (Error (''Package not found at '' @ CHR 0x27 # path @ [CHR 0x27])),
      zip_document_xml = Inl (Error ''File is not a zip file'')\<rparr>"

definition no_such_file :: "string \<Rightarrow> package" where
  "no_such_file path =
     \<lparr>docx_Document = Inl (Error (''Package not found at '' @ CHR 0x27 # path @ [CHR 0x27])),
      zip_document_xml = Inl (Error (''[Errno 2] No such file or directory: '' @ CHR 0x27 # path @ [CHR 0x27]))\<rparr>"

text \<open>What the two libraries see at a path.\<close>

definition package_at :: "world \<Rightarrow> string \<Rightarrow> package" where
  "package_at w path =
     (case files w path of
        None \<Rightarrow> no_such_file path
      | Some (Package_file pkg) \<Rightarrow> pkg
      | Some (Markdown_file body) \<Rightarrow> not_a_package path)"

text \<open>\<^verbatim>\<open>os.path.basename\<close> and \<^verbatim>\<open>os.path.join\<close> of two components, on POSIX paths.\<close>

definition basename :: "string \<Rightarrow> string" where
  "basename p = rev (takeWhile (\<lambda>c. c \<noteq> CHR ''/'') (rev p))"

definition path_join :: "string \<Rightarrow> string \<Rightarrow> string" where
  "path_join a b =
     (if startswith b ''/'' then b
      else if a = '''' \<or> endswith a ''/'' then a @ b
      else a @ ''/'' @ b)"

text \<open>
  \<^verbatim>\<open>convert_one\<close>: the output path, or the exception that leaves the function, and the
  world afterwards.
\<close>

definition convert_one :: "world \<Rightarrow> string \<Rightarrow> string \<Rightarrow> (error + string) \<times> world" where
  "convert_one w input_path outdir =
     (let base = basename input_path;
          lang = detect_language_from_name base
      in case read_docx_text (HAS_PYTHON_DOCX w) (package_at w input_path) of
           Inl e \<Rightarrow> (Inl e, w)
         | Inr text \<Rightarrow>
             (let header = ''<!-- Converted from: '' @ base @ '' on '' @ utcnow w (ticks w)
                             @ ''Z -->'' @ [NL];
                  w1 = w\<lparr>ticks := Suc (ticks w)\<rparr>;
                  fence = (if lang \<noteq> '''' then ''```'' @ lang @ [NL] else ''```'' @ [NL]);
                  md_body = header @ [NL] @ fence @ text @ [NL] @ ''```'' @ [NL];
                  clean_base = sanitize_basename base;
                  out_name = clean_base @ ''.md'';
                  out_path = path_join outdir out_name
              in case open_error w1 out_path of
                   Some e \<Rightarrow> (Inl e, w1)
                 | None \<Rightarrow>
                     (Inr out_path,
                      w1\<lparr>files := (files w1)(out_path \<mapsto> Markdown_file md_body)\<rparr>)))"

text \<open>One pass of the loop of \<^verbatim>\<open>main\<close>: the status recorded for the path.\<close>

definition main_step :: "world \<Rightarrow> string \<Rightarrow> string \<Rightarrow> string \<times> world" where
  "main_step w outdir path =
     (if files w path = None then (''MISSING'', w)
      else if \<not> endswith (lower path) ''.docx'' then (''SKIPPED (not .docx)'', w)
      else (case convert_one w path outdir of
              (Inr outp, w') \<Rightarrow> (outp, w')
            | (Inl (Error e), w') \<Rightarrow> (''ERROR: '' @ e, w')))"

text \<open>The loop of \<^verbatim>\<open>main\<close> over the inputs: the list \<^verbatim>\<open>results\<close> and the world afterwards.\<close>

fun main_loop :: "world \<Rightarrow> string \<Rightarrow> string list \<Rightarrow> (string \<times> string) list \<times> world" where
  "main_loop w outdir [] = ([], w)"
| "main_loop w outdir (path # inputs) =
     (let (status, w') = main_step w outdir path;
          (results, w'') = main_loop w' outdir inputs
      in ((path, status) # results, w''))"

section \<open>Notions of the specification\<close>

text \<open>
  A case-insensitive occurrence of \<open>sub\<close> (given in lower case) in a name: some part of
  the name equals \<open>sub\<close> up to the case of its letters.
\<close>

definition ci_occurs :: "string \<Rightarrow> string \<Rightarrow> bool" where
  "ci_occurs sub name = (\<exists>pre w post. name = pre @ w @ post \<and> lower w = sub)"

text \<open>The number of newlines at the start of a string.\<close>

definition lead_newlines :: "string \<Rightarrow> nat" where
  "lead_newlines s = length (takeWhile (\<lambda>c. c = NL) s)"

text \<open>No three consecutive newlines anywhere in a string.\<close>

definition nl3_free :: "string \<Rightarrow> bool" where
  "nl3_free s = (\<not> (\<exists>pre post. s = pre @ [NL, NL, NL] @ post))"

text \<open>
  The Text Normalizer in the words of the specification. The maximal runs of equal
  characters of a string, in order; every run of three or more newlines becomes exactly
  two newlines.
\<close>

function runs :: "'a list \<Rightarrow> 'a list list" where
  "runs [] = []"
| "runs (x # xs) = (x # takeWhile (\<lambda>y. y = x) xs) # runs (dropWhile (\<lambda>y. y = x) xs)"
  by pat_completeness auto
termination
  by (relation "measure length") (auto simp: length_dropWhile_le le_imp_less_Suc)

definition spec_collapse :: "string \<Rightarrow> string" where
  "spec_collapse s =
     concat (map (\<lambda>r. if hd r = NL \<and> 3 \<le> length r then [NL, NL] else r) (runs s))"

text \<open>Only the \<^verbatim>\<open>None\<close> entries are filtered out; an empty fragment stays.\<close>

definition spec_keep :: "string option list \<Rightarrow> string list" where
  "spec_keep parts = map the (filter (\<lambda>p. p \<noteq> None) parts)"

text \<open>The fragments joined with a single newline between neighbours.\<close>

definition spec_join :: "string list \<Rightarrow> string" where
  "spec_join xs = (case xs of [] \<Rightarrow> [] | x # ys \<Rightarrow> x @ concat (map (\<lambda>y. NL # y) ys))"

definition spec_normalizer :: "string option list \<Rightarrow> string" where
  "spec_normalizer parts = strip (spec_collapse (spec_join (spec_keep parts)))"

text \<open>
  Documents as a word processor writes them: elements of the WordprocessingML namespace,
  a text run \<^verbatim>\<open>w:t\<close> inside a run \<^verbatim>\<open>w:r\<close> inside a paragraph \<^verbatim>\<open>w:p\<close>, a table \<^verbatim>\<open>w:tbl\<close>
  of one row \<^verbatim>\<open>w:tr\<close> whose cells \<^verbatim>\<open>w:tc\<close> hold paragraphs, and the root \<^verbatim>\<open>w:document\<close>
  with its \<^verbatim>\<open>w:body\<close>. A well-formed package is one that both libraries parse to the same
  root element.
\<close>

definition w_element :: "string \<Rightarrow> xml_node list \<Rightarrow> xml_node" where
  "w_element name cs = Element (w_ns @ name) None cs"

definition w_t :: "string \<Rightarrow> xml_node" where
  "w_t s = Element (w_ns @ ''t'') (Some s) []"

definition w_p :: "string \<Rightarrow> xml_node" where
  "w_p s = w_element ''p'' [w_element ''r'' [w_t s]]"

definition w_tbl :: "xml_node list list \<Rightarrow> xml_node" where
  "w_tbl cells = w_element ''tbl'' [w_element ''tr'' (map (w_element ''tc'') cells)]"

definition w_document :: "xml_node list \<Rightarrow> xml_node" where
  "w_document blocks = w_element ''document'' [w_element ''body'' blocks]"

definition package_of :: "xml_node \<Rightarrow> package" where
  "package_of root = \<lparr>docx_Document = Inr root, zip_document_xml = Inr root\<rparr>"

text \<open>
  A body without tables in which every element with local name \<^verbatim>\<open>p\<close> is a
  WordprocessingML paragraph.
\<close>

definition plain_body :: "xml_node \<Rightarrow> bool" where
  "plain_body body =
     list_all (\<lambda>e. local_name (tag e) \<noteq> ''tbl''
                  \<and> (local_name (tag e) = ''p'' \<longrightarrow> tag e = w_ns @ ''p''))
       (iter body)"

text \<open>The path of the Markdown file that \<^verbatim>\<open>convert_one\<close> writes for an input.\<close>

definition output_path :: "string \<Rightarrow> string \<Rightarrow> string" where
  "output_path outdir input_path =
     path_join outdir (sanitize_basename (basename input_path) @ ''.md'')"

text \<open>
  Two worlds offer the same inputs to the script: the same files at every path with the
  extension \<^verbatim>\<open>.docx\<close>, the same failures of \<^verbatim>\<open>open\<close> and the same library flag.
\<close>

definition same_inputs :: "world \<Rightarrow> world \<Rightarrow> bool" where
  "same_inputs w w' =
     ((\<forall>p. endswith (lower p) ''.docx'' \<longrightarrow> files w' p = files w p)
      \<and> open_error w' = open_error w
      \<and> HAS_PYTHON_DOCX w' = HAS_PYTHON_DOCX w)"

text \<open>A world with the given files, in which every output file can be written.\<close>

definition world_of :: "(string \<times> fs_file) list \<Rightarrow> bool \<Rightarrow> world" where
  "world_of fs has_docx =
     \<lparr>files = map_of fs, open_error = (\<lambda>p. None), utcnow = (\<lambda>n. ''2024-01-01T00:00:00''),
      ticks = 0, HAS_PYTHON_DOCX = has_docx\<rparr>"

text \<open>
  The part of a name in front of the version suffix, without the separator: the
  whitespace at its end is dropped, and then one comma, if there is one.
\<close>

definition cut_separator :: "string \<Rightarrow> string" where
  "cut_separator pre =
     (let q = rev (dropWhile isspace (rev pre))
      in if q \<noteq> [] \<and> last q = CHR '','' then butlast q else q)"

text \<open>What \<^verbatim>\<open>,?\s*\<close> can match: nothing, or a comma or a whitespace followed by whitespace.\<close>

definition sep_shaped :: "string \<Rightarrow> bool" where
  "sep_shaped sp =
     (sp = [] \<or> ((isspace (hd sp) \<or> hd sp = CHR '','') \<and> list_all isspace (tl sp)))"

text \<open>
  The Markdown file of an input, as the specification describes it: the header comment
  with the source name and the time stamp, a blank line, the opening fence with the
  language tag of the name, the extracted text, and the closing fence on its own line.
\<close>

definition markdown_of :: "string \<Rightarrow> string \<Rightarrow> string \<Rightarrow> string" where
  "markdown_of base stamp body_text =
     ''<!-- Converted from: '' @ base @ '' on '' @ stamp @ ''Z -->'' @ [NL] @ [NL]
     @ ''```'' @ detect_language_from_name base @ [NL] @ body_text @ [NL] @ ''```'' @ [NL]"

section \<open>Auxiliary lemmas\<close>

lemma startswith_iff: "startswith s p \<longleftrightarrow> (\<exists>post. s = p @ post)"
proof
  assume "startswith s p"
  then have "s = p @ drop (length p) s"
    unfolding startswith_def by (metis append_take_drop_id)
  then show "\<exists>post. s = p @ post" ..
next
  assume "\<exists>post. s = p @ post"
  then show "startswith s p" by (auto simp: startswith_def)
qed

lemma contains_iff: "contains sub s \<longleftrightarrow> (\<exists>pre post. s = pre @ sub @ post)"
proof (induction s)
  case Nil
  then show ?case by auto
next
  case (Cons c cs)
  show ?case
  proof
    assume "contains sub (c # cs)"
    then consider "startswith (c # cs) sub" | "contains sub cs" by auto
    then show "\<exists>pre post. c # cs = pre @ sub @ post"
    proof cases
      case 1
      then obtain post where "c # cs = sub @ post" by (auto simp: startswith_iff)
      then have "c # cs = [] @ sub @ post" by simp
      then show ?thesis by blast
    next
      case 2
      then obtain pre post where "cs = pre @ sub @ post" using Cons.IH by auto
      then have "c # cs = (c # pre) @ sub @ post" by simp
      then show ?thesis by blast
    qed
  next
    assume "\<exists>pre post. c # cs = pre @ sub @ post"
    then obtain pre post where eq: "c # cs = pre @ sub @ post" by auto
    show "contains sub (c # cs)"
    proof (cases pre)
      case Nil
      with eq have "startswith (c # cs) sub" by (auto simp: startswith_iff)
      then show ?thesis by simp
    next
      case (Cons p ps)
      with eq have "cs = ps @ sub @ post" by simp
      then have "contains sub cs" using Cons.IH by blast
      then show ?thesis by simp
    qed
  qed
qed

lemma map_eq_append_split:
  "map f xs = ys @ zs \<Longrightarrow> \<exists>us vs. xs = us @ vs \<and> map f us = ys \<and> map f vs = zs"
  by (auto simp: map_eq_append_conv)

lemma contains_lower_iff: "contains sub (lower name) \<longleftrightarrow> ci_occurs sub name"
proof
  assume "contains sub (lower name)"
  then obtain pre post where "map lower_char name = pre @ sub @ post"
    by (auto simp: contains_iff lower_def)
  from map_eq_append_split [OF this]
  obtain us vs where n: "name = us @ vs" and v: "map lower_char vs = sub @ post"
    by blast
  from map_eq_append_split [OF v]
  obtain w ws where "vs = w @ ws" and "map lower_char w = sub"
    by blast
  with n have "name = us @ w @ ws \<and> lower w = sub" by (simp add: lower_def)
  then show "ci_occurs sub name" unfolding ci_occurs_def by blast
next
  assume "ci_occurs sub name"
  then obtain pre w post where "name = pre @ w @ post" and "lower w = sub"
    unfolding ci_occurs_def by blast
  then have "lower name = lower pre @ sub @ lower post" by (auto simp: lower_def)
  then show "contains sub (lower name)" unfolding contains_iff by blast
qed

subsection \<open>Newline runs and stripping\<close>

lemma lead_newlines_simps [simp]:
  "lead_newlines [] = 0"
  "lead_newlines (c # cs) = (if c = NL then Suc (lead_newlines cs) else 0)"
  by (simp_all add: lead_newlines_def)

lemma m_newlines_eq: "m_newlines s = (if 3 \<le> lead_newlines s then Some (lead_newlines s) else None)"
  by (simp add: m_newlines_def lead_newlines_def Let_def)

lemma drop_lead_newlines: "drop (lead_newlines s) s = dropWhile (\<lambda>c. c = NL) s"
  by (simp add: lead_newlines_def dropWhile_eq_drop)

lemma lead_newlines_dropWhile [simp]: "lead_newlines (dropWhile (\<lambda>c. c = NL) s) = 0"
  by (induction s) auto

lemma lead_ge2_iff: "2 \<le> lead_newlines s \<longleftrightarrow> (\<exists>post. s = NL # NL # post)"
  by (cases s; cases "tl s") (auto)

lemma nl3_free_Nil [simp]: "nl3_free []"
  by (simp add: nl3_free_def)

lemma nl3_free_Cons:
  "nl3_free (c # s) \<longleftrightarrow> nl3_free s \<and> \<not> (c = NL \<and> 2 \<le> lead_newlines s)"
proof -
  have "(\<exists>pre post. c # s = pre @ [NL, NL, NL] @ post) \<longleftrightarrow>
        (\<exists>pre post. s = pre @ [NL, NL, NL] @ post) \<or> (c = NL \<and> (\<exists>post. s = NL # NL # post))"
    (is "?L \<longleftrightarrow> ?A \<or> ?B")
  proof
    assume ?L
    then obtain pre post where eq: "c # s = pre @ [NL, NL, NL] @ post" by blast
    show "?A \<or> ?B"
    proof (cases pre)
      case Nil
      with eq show ?thesis by auto
    next
      case (Cons p ps)
      with eq have "s = ps @ [NL, NL, NL] @ post" by simp
      then show ?thesis by blast
    qed
  next
    assume "?A \<or> ?B"
    then show ?L
    proof
      assume ?A
      then obtain pre post where "s = pre @ [NL, NL, NL] @ post" by blast
      then have "c # s = (c # pre) @ [NL, NL, NL] @ post" by simp
      then show ?L by blast
    next
      assume ?B
      then obtain post where "c # s = [] @ [NL, NL, NL] @ post" by auto
      then show ?L by blast
    qed
  qed
  then show ?thesis by (auto simp: nl3_free_def lead_ge2_iff)
qed

lemma nl3_free_lead: "nl3_free s \<Longrightarrow> lead_newlines s \<le> 2"
  by (cases s) (auto simp: nl3_free_Cons)

lemma re_sub_newlines_id: "nl3_free s \<Longrightarrow> re_sub m_newlines r s = s"
proof (induction s)
  case Nil
  then show ?case by (simp add: m_newlines_eq)
next
  case (Cons c cs)
  from Cons.prems have "lead_newlines (c # cs) \<le> 2" by (rule nl3_free_lead)
  then have "m_newlines (c # cs) = None" by (simp add: m_newlines_eq)
  moreover from Cons.prems have "nl3_free cs" by (simp add: nl3_free_Cons)
  ultimately show ?case using Cons.IH by simp
qed

lemma re_sub_newlines_shape:
  "nl3_free (re_sub m_newlines [NL, NL] s) \<and>
   lead_newlines (re_sub m_newlines [NL, NL] s) = min 2 (lead_newlines s)"
proof (induction s rule: length_induct)
  case (1 s)
  show ?case
  proof (cases s)
    case Nil
    then show ?thesis by (simp add: m_newlines_eq)
  next
    case (Cons c cs)
    show ?thesis
    proof (cases "3 \<le> lead_newlines s")
      case True
      then obtain n where n: "lead_newlines s = Suc n" by (cases "lead_newlines s") auto
      with Cons have c: "c = NL" and ncs: "lead_newlines cs = n" by (auto split: if_splits)
      have m: "m_newlines (c # cs) = Some (Suc n)" using True n Cons by (simp add: m_newlines_eq)
      let ?rest = "dropWhile (\<lambda>c. c = NL) cs"
      have d: "drop n cs = ?rest" using drop_lead_newlines [of cs] ncs by simp
      have eq: "re_sub m_newlines [NL, NL] s = NL # NL # re_sub m_newlines [NL, NL] ?rest"
        using Cons m d by simp
      have "length ?rest < length s" using Cons by (simp add: length_dropWhile_le le_imp_less_Suc)
      with 1 have ih: "nl3_free (re_sub m_newlines [NL, NL] ?rest)"
        "lead_newlines (re_sub m_newlines [NL, NL] ?rest) = 0" by auto
      show ?thesis using eq ih True by (simp add: nl3_free_Cons)
    next
      case False
      then have m: "m_newlines (c # cs) = None" using Cons by (simp add: m_newlines_eq)
      then have eq: "re_sub m_newlines [NL, NL] s = c # re_sub m_newlines [NL, NL] cs"
        using Cons by simp
      have "length cs < length s" using Cons by simp
      with 1 have ih: "nl3_free (re_sub m_newlines [NL, NL] cs)"
        "lead_newlines (re_sub m_newlines [NL, NL] cs) = min 2 (lead_newlines cs)" by auto
      show ?thesis using eq ih False Cons by (auto simp: nl3_free_Cons)
    qed
  qed
qed

lemma nl3_free_sublist: "nl3_free (a @ s @ b) \<Longrightarrow> nl3_free s"
proof -
  have "s = pre @ [NL, NL, NL] @ post \<Longrightarrow> a @ s @ b = (a @ pre) @ [NL, NL, NL] @ (post @ b)"
    for pre post by simp
  then show "nl3_free (a @ s @ b) \<Longrightarrow> nl3_free s"
    unfolding nl3_free_def by blast
qed

lemma strip_sublist: "\<exists>a b. s = a @ strip s @ b \<and> (\<forall>c \<in> set a. isspace c) \<and> (\<forall>c \<in> set b. isspace c)"
proof -
  let ?u = "dropWhile isspace s"
  let ?v = "dropWhile isspace (rev ?u)"
  have 1: "s = takeWhile isspace s @ ?u" by simp
  have "rev (takeWhile isspace (rev ?u) @ ?v) = ?u"
    by (simp only: takeWhile_dropWhile_id rev_rev_ident)
  then have 2: "?u = rev ?v @ rev (takeWhile isspace (rev ?u))"
    by (simp only: rev_append)
  have "s = takeWhile isspace s @ strip s @ rev (takeWhile isspace (rev ?u))"
    using 1 2 unfolding strip_def by metis
  moreover have "\<forall>c \<in> set (takeWhile isspace s). isspace c" by (auto dest: set_takeWhileD)
  moreover have "\<forall>c \<in> set (rev (takeWhile isspace (rev ?u))). isspace c" by (auto dest: set_takeWhileD)
  ultimately show ?thesis by blast
qed

lemma nl3_free_strip: "nl3_free s \<Longrightarrow> nl3_free (strip s)"
  using strip_sublist [of s] nl3_free_sublist by metis

lemma strip_ends: "strip s = [] \<or> (\<not> isspace (hd (strip s)) \<and> \<not> isspace (last (strip s)))"
proof (cases "strip s = []")
  case True
  then show ?thesis by simp
next
  case False
  let ?u = "dropWhile isspace s"
  let ?v = "dropWhile isspace (rev ?u)"
  from False have v: "?v \<noteq> []" by (simp add: strip_def)
  then have hv: "\<not> isspace (hd ?v)" by (rule hd_dropWhile)
  have u: "?u \<noteq> []"
  proof
    assume e: "?u = []"
    have "?v = []" unfolding e by simp
    with v show False by contradiction
  qed
  then have hu: "\<not> isspace (hd ?u)" by (rule hd_dropWhile)
  have "rev ?u = takeWhile isspace (rev ?u) @ ?v" by simp
  then have "last (rev ?u) = last ?v" using v by (metis last_appendR)
  then have "last ?v = hd ?u" using u by (simp add: last_rev)
  moreover have "hd (strip s) = last ?v" using v by (simp add: strip_def hd_rev)
  moreover have "last (strip s) = hd ?v" using v by (simp add: strip_def last_rev)
  ultimately show ?thesis using hu hv by simp
qed

lemma strip_id: "t = [] \<or> (\<not> isspace (hd t) \<and> \<not> isspace (last t)) \<Longrightarrow> strip t = t"
proof (cases t)
  case Nil
  then show ?thesis by (simp add: strip_def)
next
  case (Cons c cs)
  assume "t = [] \<or> (\<not> isspace (hd t) \<and> \<not> isspace (last t))"
  with Cons have h: "\<not> isspace (hd t)" and l: "\<not> isspace (last t)" and ne: "t \<noteq> []" by auto
  from h ne have 1: "dropWhile isspace t = t" by (cases t) auto
  from l ne have "\<not> isspace (hd (rev t))" by (simp add: hd_rev)
  then have 2: "dropWhile isspace (rev t) = rev t" using ne by (cases "rev t") auto
  show ?thesis by (simp add: strip_def 1 2)
qed

lemma strip_strip: "strip (strip s) = strip s"
  by (rule strip_id) (rule strip_ends)

subsection \<open>The collapsing substitution, run by run\<close>

lemma re_sub_newlines_other:
  "\<forall>c \<in> set r. c \<noteq> NL \<Longrightarrow> re_sub m_newlines R (r @ t) = r @ re_sub m_newlines R t"
  by (induction r) (auto simp: m_newlines_eq)

lemma re_sub_newlines_short:
  "lead_newlines s < 3 \<Longrightarrow>
   re_sub m_newlines R s = takeWhile (\<lambda>c. c = NL) s @ re_sub m_newlines R (dropWhile (\<lambda>c. c = NL) s)"
  by (induction s) (auto simp: m_newlines_eq)

lemma re_sub_newlines_long:
  "3 \<le> lead_newlines s \<Longrightarrow>
   re_sub m_newlines R s = R @ re_sub m_newlines R (dropWhile (\<lambda>c. c = NL) s)"
proof (cases s)
  case Nil
  assume "3 \<le> lead_newlines s"
  with Nil show ?thesis by simp
next
  case (Cons c cs)
  assume h: "3 \<le> lead_newlines s"
  with Cons have c: "c = NL" by (auto split: if_splits)
  with Cons have l: "lead_newlines s = Suc (lead_newlines cs)" by simp
  have "m_newlines (c # cs) = Some (Suc (lead_newlines cs))"
    using h l Cons by (simp add: m_newlines_eq)
  then have "re_sub m_newlines R s = R @ re_sub m_newlines R (drop (lead_newlines cs) cs)"
    using Cons by simp
  then show ?thesis using Cons c by (simp add: drop_lead_newlines)
qed

lemma re_sub_newlines_spec: "re_sub m_newlines [NL, NL] s = spec_collapse s"
proof (induction s rule: runs.induct)
  case 1
  show ?case by (simp add: spec_collapse_def m_newlines_eq)
next
  case (2 x xs)
  let ?tw = "takeWhile (\<lambda>y. y = x) xs"
  let ?dw = "dropWhile (\<lambda>y. y = x) xs"
  from 2 have ih: "re_sub m_newlines [NL, NL] ?dw = spec_collapse ?dw" .
  have split: "x # xs = (x # ?tw) @ ?dw" by simp
  have sc: "spec_collapse (x # xs) =
      (if x = NL \<and> 3 \<le> Suc (length ?tw) then [NL, NL] else x # ?tw) @ spec_collapse ?dw"
    by (simp add: spec_collapse_def)
  show ?case
  proof (cases "x = NL")
    case False
    have "\<forall>c \<in> set (x # ?tw). c \<noteq> NL" using False by (auto dest: set_takeWhileD)
    then have "re_sub m_newlines [NL, NL] ((x # ?tw) @ ?dw) = (x # ?tw) @ re_sub m_newlines [NL, NL] ?dw"
      by (rule re_sub_newlines_other)
    with split have "re_sub m_newlines [NL, NL] (x # xs) = (x # ?tw) @ re_sub m_newlines [NL, NL] ?dw"
      by simp
    then show ?thesis using False ih sc by simp
  next
    case True
    have l: "lead_newlines (x # xs) = Suc (length ?tw)" using True by (simp add: lead_newlines_def)
    have tw: "takeWhile (\<lambda>c. c = NL) (x # xs) = x # ?tw" using True by simp
    have dw: "dropWhile (\<lambda>c. c = NL) (x # xs) = ?dw" using True by simp
    show ?thesis
    proof (cases "3 \<le> Suc (length ?tw)")
      case True
      then have "3 \<le> lead_newlines (x # xs)" using l by simp
      from re_sub_newlines_long [OF this, of "[NL, NL]"]
      show ?thesis using dw ih sc True \<open>x = NL\<close> by simp
    next
      case False
      then have "lead_newlines (x # xs) < 3" using l by simp
      from re_sub_newlines_short [OF this, of "[NL, NL]"]
      show ?thesis using tw dw ih sc False by simp
    qed
  qed
qed

lemma join_spec: "join [NL] xs = spec_join xs"
proof (cases xs)
  case Nil
  then show ?thesis by (simp add: spec_join_def)
next
  case (Cons x ys)
  have "join [NL] (x # ys) = x @ concat (map (\<lambda>y. NL # y) ys)"
    by (induction ys arbitrary: x) auto
  with Cons show ?thesis by (simp add: spec_join_def)
qed

lemma keep_spec:
  "concat (map (\<lambda>p. case p of None \<Rightarrow> [] | Some s \<Rightarrow> [s]) parts) = spec_keep parts"
  by (induction parts) (auto simp: spec_keep_def)

lemma join_parts_Some: "join_parts (map Some xs) = join [NL] xs"
proof -
  have "concat (map (\<lambda>p. case p of None \<Rightarrow> [] | Some s \<Rightarrow> [s]) (map Some xs)) = xs"
    by (induction xs) auto
  then show ?thesis by (simp add: join_parts_def)
qed

subsection \<open>Elements, paragraphs and fragments\<close>

lemma isspace_NL: "isspace NL"
  by (simp add: isspace_def whitespace_def NL_def)

lemma local_name_w: "CHR ''}'' \<notin> set name \<Longrightarrow> local_name (w_ns @ name) = name"
proof -
  assume n: "CHR ''}'' \<notin> set name"
  define pre where "pre = butlast w_ns"
  have p: "w_ns = pre @ [CHR ''}'']" unfolding pre_def w_ns_def by simp
  have "takeWhile (\<lambda>c. c \<noteq> CHR ''}'') (rev name @ CHR ''}'' # rev pre)
          = rev name @ takeWhile (\<lambda>c. c \<noteq> CHR ''}'') (CHR ''}'' # rev pre)"
    by (rule takeWhile_append2) (use n in auto)
  then have "takeWhile (\<lambda>c. c \<noteq> CHR ''}'') (rev name @ CHR ''}'' # rev pre) = rev name"
    by simp
  then show ?thesis by (simp add: local_name_def p)
qed

lemma local_name_w_p [simp]: "local_name (w_ns @ ''p'') = ''p''"
  by (rule local_name_w) simp











lemma plain_block_parts_one:
  "local_name (tag e) \<noteq> ''tbl'' \<Longrightarrow> (local_name (tag e) = ''p'' \<longrightarrow> tag e = w_ns @ ''p'') \<Longrightarrow>
   block_parts e = (if tag e = w_ns @ ''p'' then [paragraph_text e] else [])"
proof (cases "tag e = w_ns @ ''p''")
  case True
  then have "local_name (tag e) = ''p''" by (simp only: local_name_w_p)
  then show ?thesis using True by (simp only: block_parts_def Let_def if_True simp_thms)
next
  case False
  assume "local_name (tag e) = ''p'' \<longrightarrow> tag e = w_ns @ ''p''"
  with False have np: "local_name (tag e) \<noteq> ''p''" by blast
  assume "local_name (tag e) \<noteq> ''tbl''"
  with np False show ?thesis by (simp only: block_parts_def Let_def if_False simp_thms)
qed

lemma plain_block_parts:
  "list_all (\<lambda>e. local_name (tag e) \<noteq> ''tbl'' \<and> (local_name (tag e) = ''p'' \<longrightarrow> tag e = w_ns @ ''p'')) xs \<Longrightarrow>
   concat (map block_parts xs) = map paragraph_text (filter (\<lambda>e. tag e = w_ns @ ''p'') xs)"
proof (induction xs)
  case Nil
  show ?case by (simp only: list.map concat.simps filter.simps)
next
  case (Cons e es)
  from Cons.prems [unfolded list.pred_inject]
  have e: "local_name (tag e) \<noteq> ''tbl''"
    and p: "local_name (tag e) = ''p'' \<longrightarrow> tag e = w_ns @ ''p''"
    and q: "list_all (\<lambda>e. local_name (tag e) \<noteq> ''tbl'' \<and> (local_name (tag e) = ''p'' \<longrightarrow> tag e = w_ns @ ''p'')) es"
    by blast+
  have ih: "concat (map block_parts es) = map paragraph_text (filter (\<lambda>e. tag e = w_ns @ ''p'') es)"
    using q by (rule Cons.IH)
  have bp: "block_parts e = (if tag e = w_ns @ ''p'' then [paragraph_text e] else [])"
    using e p by (rule plain_block_parts_one)
  show ?case
    by (cases "tag e = w_ns @ ''p''")
       (simp_all only: list.map concat.simps filter.simps bp ih if_True if_False append_Cons append_Nil simp_thms)
qed

lemma element_body_single:
  "children root = [body] \<Longrightarrow> tag body = w_ns @ ''body'' \<Longrightarrow> element_body root = Some body"
  by (simp only: element_body_def find.simps if_True simp_thms)

lemma plain_body_parts:
  "children root = [body] \<Longrightarrow> plain_body body \<Longrightarrow>
   body_parts body = map paragraph_text (findall_w_p root)"
proof -
  assume c: "children root = [body]" and p: "plain_body body"
  have "concat (map iter (children root)) = iter body"
    by (simp only: c list.map concat.simps append_Nil2)
  then have "findall_w_p root = filter (\<lambda>e. tag e = w_ns @ ''p'') (iter body)"
    by (simp only: findall_w_p_def)
  moreover have "body_parts body = map paragraph_text (filter (\<lambda>e. tag e = w_ns @ ''p'') (iter body))"
    unfolding body_parts_def using p [unfolded plain_body_def] by (rule plain_block_parts)
  ultimately show ?thesis by (simp only:)
qed

subsection \<open>One input and the batch\<close>

lemma convert_one_read_error:
  "read_docx_text (HAS_PYTHON_DOCX w) (package_at w p) = Inl e \<Longrightarrow>
   convert_one w p outdir = (Inl e, w)"
  by (simp add: convert_one_def Let_def)

lemma convert_one_written:
  "read_docx_text (HAS_PYTHON_DOCX w) (package_at w p) = Inr text \<Longrightarrow>
   open_error w (output_path outdir p) = None \<Longrightarrow>
   fst (convert_one w p outdir) = Inr (output_path outdir p)"
  by (simp add: convert_one_def Let_def output_path_def)

lemma convert_one_open_error:
  "read_docx_text (HAS_PYTHON_DOCX w) (package_at w p) = Inr text \<Longrightarrow>
   open_error w (output_path outdir p) = Some e \<Longrightarrow>
   fst (convert_one w p outdir) = Inl e"
  by (simp add: convert_one_def Let_def output_path_def)

lemma main_step_status:
  "fst (main_step w outdir path) =
     (if files w path = None then ''MISSING''
      else if \<not> endswith (lower path) ''.docx'' then ''SKIPPED (not .docx)''
      else (case fst (convert_one w path outdir) of
              Inr outp \<Rightarrow> outp
            | Inl (Error msg) \<Rightarrow> ''ERROR: '' @ msg))"
  by (cases "convert_one w path outdir")
     (simp add: main_step_def split: sum.splits error.splits)

lemma main_step_early:
  "files w path = None \<or> \<not> endswith (lower path) ''.docx'' \<Longrightarrow> snd (main_step w outdir path) = w"
  by (auto simp: main_step_def)

lemma endswith_last: "endswith s p \<Longrightarrow> p \<noteq> [] \<Longrightarrow> last s = last p"
proof -
  assume e: "endswith s p" and p: "p \<noteq> []"
  from e have l: "length p \<le> length s" and d: "drop (length s - length p) s = p"
    by (simp_all add: endswith_def)
  from p l have "length s - length p < length s" by (cases p) auto
  then have "last (drop (length s - length p) s) = last s" by (rule last_drop)
  with d show ?thesis by simp
qed

lemma path_join_suffix: "\<exists>y. path_join a b = y @ b"
proof -
  have "path_join a b = [] @ b \<or> path_join a b = a @ b \<or> path_join a b = (a @ ''/'') @ b"
    by (simp add: path_join_def)
  then show ?thesis by blast
qed

lemma output_path_not_docx: "\<not> endswith (lower (output_path outdir p)) ''.docx''"
proof
  assume e: "endswith (lower (output_path outdir p)) ''.docx''"
  obtain y where "output_path outdir p = y @ sanitize_basename (basename p) @ ''.md''"
    unfolding output_path_def using path_join_suffix by blast
  then have "lower (output_path outdir p)
      = lower (y @ sanitize_basename (basename p)) @ lower ''.md''"
    by (simp add: lower_def)
  moreover have "lower ''.md'' = ''.md''" by code_simp
  ultimately have "last (lower (output_path outdir p)) = CHR ''d''" by simp
  moreover from e have "last (lower (output_path outdir p)) = last ''.docx''"
    by (rule endswith_last) simp
  ultimately show False by simp
qed

lemma same_inputs_refl: "same_inputs w w"
  by (simp add: same_inputs_def)

lemma same_inputs_trans: "same_inputs a b \<Longrightarrow> same_inputs b c \<Longrightarrow> same_inputs a c"
  by (simp add: same_inputs_def)

lemma convert_one_same_inputs: "same_inputs w (snd (convert_one w p outdir))"
proof (cases "read_docx_text (HAS_PYTHON_DOCX w) (package_at w p)")
  case (Inl e)
  then show ?thesis by (simp add: convert_one_read_error same_inputs_refl)
next
  case (Inr body_text)
  have o: "path_join outdir (sanitize_basename (basename p) @ ''.md'') = output_path outdir p"
    by (simp add: output_path_def)
  have ne: "\<And>q. endswith (lower q) ''.docx'' \<Longrightarrow> q \<noteq> output_path outdir p"
    using output_path_not_docx by blast
  show ?thesis
    using Inr ne by (cases "open_error w (output_path outdir p)")
      (simp_all add: convert_one_def Let_def o same_inputs_def)
qed

lemma main_step_same_inputs: "same_inputs w (snd (main_step w outdir path))"
proof -
  have "snd (main_step w outdir path) = w
        \<or> snd (main_step w outdir path) = snd (convert_one w path outdir)"
    by (cases "convert_one w path outdir")
       (simp add: main_step_def split: sum.splits error.splits)
  then show ?thesis using convert_one_same_inputs same_inputs_refl by metis
qed

lemma convert_one_cong:
  assumes "same_inputs w w'" and "endswith (lower path) ''.docx''"
  shows "fst (convert_one w' path outdir) = fst (convert_one w path outdir)"
proof -
  from assms have f: "files w' path = files w path" and o: "open_error w' = open_error w"
    and h: "HAS_PYTHON_DOCX w' = HAS_PYTHON_DOCX w"
    by (simp_all add: same_inputs_def)
  from f have pk: "package_at w' path = package_at w path" by (simp add: package_at_def)
  show ?thesis
    by (cases "read_docx_text (HAS_PYTHON_DOCX w) (package_at w path)";
        cases "open_error w (path_join outdir (sanitize_basename (basename path) @ ''.md''))")
      (simp_all add: convert_one_def Let_def pk o h)
qed

lemma main_step_cong:
  assumes "same_inputs w w'" and "endswith (lower path) ''.docx''"
  shows "fst (main_step w' outdir path) = fst (main_step w outdir path)"
proof -
  from assms have f: "files w' path = files w path" by (simp add: same_inputs_def)
  show ?thesis
    by (simp only: main_step_status f convert_one_cong [OF assms])
qed

lemma main_loop_Cons:
  "fst (main_loop w outdir (p # ps)) =
     (p, fst (main_step w outdir p)) # fst (main_loop (snd (main_step w outdir p)) outdir ps)"
  by (simp add: split_beta)

lemma main_loop_inputs: "map fst (fst (main_loop w outdir inputs)) = inputs"
proof (induction inputs arbitrary: w)
  case Nil
  show ?case by simp
next
  case (Cons p ps)
  show ?case by (simp only: main_loop_Cons list.map fst_conv Cons.IH)
qed

lemma main_loop_length: "length (fst (main_loop w outdir inputs)) = length inputs"
  using main_loop_inputs [of w outdir inputs] by (metis length_map)

lemma main_loop_isolated:
  "same_inputs w0 w \<Longrightarrow> i < length inputs \<Longrightarrow> endswith (lower (inputs ! i)) ''.docx'' \<Longrightarrow>
   snd (fst (main_loop w outdir inputs) ! i) = fst (main_step w0 outdir (inputs ! i))"
proof (induction inputs arbitrary: w i)
  case Nil
  then show ?case by simp
next
  case (Cons p ps)
  show ?case
  proof (cases i)
    case 0
    with Cons.prems have "endswith (lower p) ''.docx''" by simp
    with Cons.prems(1) have "fst (main_step w outdir p) = fst (main_step w0 outdir p)"
      by (rule main_step_cong)
    with 0 show ?thesis by (simp only: main_loop_Cons nth_Cons_0 snd_conv)
  next
    case (Suc j)
    with Cons.prems have j: "j < length ps" and e: "endswith (lower (ps ! j)) ''.docx''"
      by simp_all
    have "same_inputs w0 (snd (main_step w outdir p))"
      using Cons.prems(1) main_step_same_inputs by (rule same_inputs_trans)
    then have "snd (fst (main_loop (snd (main_step w outdir p)) outdir ps) ! j)
        = fst (main_step w0 outdir (ps ! j))"
      using j e by (rule Cons.IH)
    with Suc show ?thesis by (simp only: main_loop_Cons nth_Cons_Suc)
  qed
qed

lemma main_loop_entry:
  "i < length inputs \<Longrightarrow>
   \<exists>wi. snd (fst (main_loop w outdir inputs) ! i) = fst (main_step wi outdir (inputs ! i))"
proof (induction inputs arbitrary: w i)
  case Nil
  then show ?case by simp
next
  case (Cons p ps)
  show ?case
  proof (cases i)
    case 0
    then have "snd (fst (main_loop w outdir (p # ps)) ! i) = fst (main_step w outdir ((p # ps) ! i))"
      by (simp only: main_loop_Cons nth_Cons_0 snd_conv)
    then show ?thesis by blast
  next
    case (Suc j)
    with Cons.prems have "j < length ps" by simp
    then obtain wi where "snd (fst (main_loop (snd (main_step w outdir p)) outdir ps) ! j)
        = fst (main_step wi outdir (ps ! j))"
      using Cons.IH by blast
    with Suc have "snd (fst (main_loop w outdir (p # ps)) ! i) = fst (main_step wi outdir ((p # ps) ! i))"
      by (simp only: main_loop_Cons nth_Cons_Suc)
    then show ?thesis by blast
  qed
qed

lemma main_step_not_docx:
  "\<not> endswith (lower path) ''.docx'' \<Longrightarrow>
   fst (main_step w outdir path) = ''MISSING'' \<or> fst (main_step w outdir path) = ''SKIPPED (not .docx)''"
  by (simp add: main_step_def)

subsection \<open>The substitutions on file names\<close>

lemma re_sub_Suc:
  "m (c # cs) = Some (Suc n) \<Longrightarrow> re_sub m r (c # cs) = r @ re_sub m r (drop n cs)"
  by simp

lemma re_sub_None:
  "m (c # cs) = None \<Longrightarrow> re_sub m r (c # cs) = c # re_sub m r cs"
  by simp

lemma isspace_lower_char: "isspace c \<Longrightarrow> lower_char c = c"
proof -
  assume "isspace c"
  then have "c \<in> set whitespace" by (simp add: isspace_def)
  then have "list_ex (\<lambda>d. c = d) whitespace" by (simp add: list_ex_iff)
  moreover have "list_all (\<lambda>d. lower_char d = d) whitespace" by code_simp
  ultimately show ?thesis by (auto simp: list_ex_iff list_all_iff)
qed

lemma lower_char_not_space:
  "lower_char c = d \<Longrightarrow> \<not> isspace d \<Longrightarrow> \<not> isspace c"
  using isspace_lower_char by auto

lemma not_space_dot: "\<not> isspace CHR ''.''" by code_simp
lemma not_space_x: "\<not> isspace CHR ''x''" by code_simp
lemma not_space_v: "\<not> isspace CHR ''v''" by code_simp
lemma not_space_comma: "\<not> isspace CHR '',''" by code_simp
lemma lower_char_NL: "lower_char NL = NL" by code_simp
lemma lower_char_comma: "lower_char CHR '','' = CHR '',''" by code_simp

lemma docx_ext_shape:
  "lower e = ''.docx'' \<Longrightarrow>
   length e = 5 \<and> e \<noteq> [] \<and> \<not> isspace (hd e) \<and> \<not> isspace (last e) \<and> last e \<noteq> NL"
proof -
  assume l: "lower e = ''.docx''"
  then have len: "length (map lower_char e) = 5" by (simp add: lower_def)
  then have len5: "length e = 5" by simp
  then have ne: "e \<noteq> []" by auto
  from l ne have "lower_char (hd e) = CHR ''.''"
    by (metis lower_def hd_map list.sel(1))
  then have h: "\<not> isspace (hd e)" using not_space_dot by (rule lower_char_not_space)
  from l ne have "lower_char (last e) = last ''.docx''"
    by (metis lower_def last_map)
  then have lx: "lower_char (last e) = CHR ''x''" by simp
  then have s: "\<not> isspace (last e)" using not_space_x by (rule lower_char_not_space)
  have "last e \<noteq> NL" using s isspace_NL by auto
  with len5 ne h s show ?thesis by blast
qed

lemma m_docx_ext_Nil: "m_docx_ext [] = None"
  by (simp add: m_docx_ext_def lower_def)

lemma m_docx_ext_length: "m_docx_ext s = Some n \<Longrightarrow> n = 5 \<and> (drop 5 s = [] \<or> drop 5 s = [NL])"
  by (simp add: m_docx_ext_def at_end_def split: if_splits)

lemma re_sub_docx_ext: "lower e = ''.docx'' \<Longrightarrow> re_sub m_docx_ext [] (x @ e) = x"
proof (induction x)
  case Nil
  from Nil have sh: "length e = 5" "e \<noteq> []" using docx_ext_shape by blast+
  then obtain c cs where e: "e = c # cs" by (cases e) auto
  with sh have lcs: "length cs = 4" by simp
  have "m_docx_ext e = Some 5" using Nil sh by (simp add: m_docx_ext_def at_end_def)
  then have "m_docx_ext (c # cs) = Some (Suc 4)" using e by simp
  then have "re_sub m_docx_ext [] (c # cs) = [] @ re_sub m_docx_ext [] (drop 4 cs)"
    by (rule re_sub_Suc)
  then show ?case using e lcs by (simp add: m_docx_ext_Nil)
next
  case (Cons c x)
  from Cons.prems have sh: "length e = 5" "e \<noteq> []" "last e \<noteq> NL"
    using docx_ext_shape by blast+
  have "m_docx_ext (c # x @ e) = None"
  proof (rule ccontr)
    assume "m_docx_ext (c # x @ e) \<noteq> None"
    then obtain n where "m_docx_ext (c # x @ e) = Some n" by auto
    then have d0: "drop 5 (c # x @ e) = [] \<or> drop 5 (c # x @ e) = [NL]"
      using m_docx_ext_length by blast
    define r where "r = drop 5 (c # x @ e)"
    from d0 have d: "r = [] \<or> r = [NL]" unfolding r_def .
    have len: "length r = Suc (length x)" unfolding r_def using sh by simp
    from d len have x: "x = []" by auto
    with d len have "r = [NL]" by auto
    then have "last r = NL" by simp
    moreover have "last r = last (c # x @ e)" unfolding r_def using sh by (intro last_drop) simp
    ultimately have "last e = NL" using sh by simp
    with sh show False by blast
  qed
  then have "re_sub m_docx_ext [] (c # x @ e) = c # re_sub m_docx_ext [] (x @ e)"
    by (rule re_sub_None)
  with Cons show ?case by simp
qed

lemma ci_occurs_append: "ci_occurs sub x \<Longrightarrow> ci_occurs sub (a @ x @ b)"
proof -
  assume "ci_occurs sub x"
  then obtain pre w post where "x = pre @ w @ post" and l: "lower w = sub"
    unfolding ci_occurs_def by blast
  then have "a @ x @ b = (a @ pre) @ w @ (post @ b)" by simp
  with l show ?thesis unfolding ci_occurs_def by blast
qed

lemma m_version_suffix_occurs:
  "m_version_suffix s = Some n \<Longrightarrow> ci_occurs ''version formulaid'' s"
proof -
  assume "m_version_suffix s = Some n"
  then obtain k where "lower (take 17 (drop k s)) = ''version formulaid''"
    by (auto simp: m_version_suffix_def Let_def split: if_splits)
  moreover have "s = take k s @ take 17 (drop k s) @ drop 17 (drop k s)"
    by (simp only: append_take_drop_id)
  ultimately show ?thesis unfolding ci_occurs_def by blast
qed

lemma re_sub_version_suffix_id:
  "\<not> ci_occurs ''version formulaid'' s \<Longrightarrow> re_sub m_version_suffix r s = s"
proof (induction s)
  case Nil
  have "m_version_suffix [] = None"
    using Nil m_version_suffix_occurs by (cases "m_version_suffix []") auto
  then show ?case by simp
next
  case (Cons c cs)
  have m: "m_version_suffix (c # cs) = None"
    using Cons.prems m_version_suffix_occurs by (cases "m_version_suffix (c # cs)") auto
  have "\<not> ci_occurs ''version formulaid'' cs"
    using Cons.prems ci_occurs_append [of "''version formulaid''" cs "[c]" "[]"] by auto
  then have "re_sub m_version_suffix r cs = cs" by (rule Cons.IH)
  with m show ?case by simp
qed

lemma dropWhile_last:
  "s \<noteq> [] \<Longrightarrow> \<not> P (last s) \<Longrightarrow> dropWhile P s \<noteq> [] \<and> last (dropWhile P s) = last s"
proof -
  assume ne: "s \<noteq> []" and l: "\<not> P (last s)"
  have d: "dropWhile P s \<noteq> []"
  proof
    assume "dropWhile P s = []"
    then have "\<forall>x \<in> set s. P x" by (simp add: dropWhile_eq_Nil_conv)
    with ne l show False using last_in_set by blast
  qed
  have "s = takeWhile P s @ dropWhile P s" by simp
  then have "last s = last (takeWhile P s @ dropWhile P s)" by simp
  with d show ?thesis by (simp only: last_appendR simp_thms)
qed

lemma strip_no_trailing:
  "s \<noteq> [] \<Longrightarrow> \<not> isspace (last s) \<Longrightarrow> strip s = dropWhile isspace s"
proof -
  assume "s \<noteq> []" and "\<not> isspace (last s)"
  then have d: "dropWhile isspace s \<noteq> []" and l: "\<not> isspace (last (dropWhile isspace s))"
    using dropWhile_last [of s isspace] by auto
  then have "\<not> isspace (hd (rev (dropWhile isspace s)))" by (simp add: hd_rev)
  then have "dropWhile isspace (rev (dropWhile isspace s)) = rev (dropWhile isspace s)"
    using d by (cases "rev (dropWhile isspace s)") auto
  then show ?thesis by (simp add: strip_def)
qed

lemma strip_append_ext:
  "e \<noteq> [] \<Longrightarrow> \<not> isspace (hd e) \<Longrightarrow> \<not> isspace (last e) \<Longrightarrow>
   strip (y @ e) = dropWhile isspace y @ e"
proof -
  assume ne: "e \<noteq> []" and h: "\<not> isspace (hd e)" and l: "\<not> isspace (last e)"
  from ne l have "strip (y @ e) = dropWhile isspace (y @ e)"
    by (intro strip_no_trailing) simp_all
  moreover from ne h have "dropWhile isspace e = e" by (cases e) auto
  ultimately show ?thesis by (simp add: dropWhile_append)
qed

lemma sanitize_basename_plain:
  assumes "\<not> ci_occurs ''version formulaid'' x" and "lower e = ''.docx''"
  shows "sanitize_basename (x @ e) = strip x"
proof -
  have "re_sub m_docx_ext [] (x @ e) = x" using assms(2) by (rule re_sub_docx_ext)
  moreover have "re_sub m_version_suffix [] x = x" using assms(1) by (rule re_sub_version_suffix_id)
  ultimately show ?thesis by (simp add: sanitize_basename_def)
qed

subsection \<open>The version suffix\<close>

lemma version_literal_shape:
  "lower v = ''version formulaid'' \<Longrightarrow>
   length v = 17 \<and> v \<noteq> [] \<and> \<not> isspace (hd v) \<and> hd v \<noteq> CHR '',''"
proof -
  assume l: "lower v = ''version formulaid''"
  then have "length (map lower_char v) = 17" by (simp add: lower_def)
  then have len: "length v = 17" by simp
  then have ne: "v \<noteq> []" by auto
  have "hd (lower v) = lower_char (hd v)" using ne by (simp add: lower_def hd_map)
  moreover have "hd (lower v) = CHR ''v''" by (simp add: l)
  ultimately have h: "lower_char (hd v) = CHR ''v''" by simp
  then have s: "\<not> isspace (hd v)" using not_space_v by (rule lower_char_not_space)
  have "hd v \<noteq> CHR '',''" using h lower_char_comma by auto
  with len ne s show ?thesis by blast
qed

lemma m_version_suffix_Nil: "m_version_suffix [] = None"
  by (simp add: m_version_suffix_def lower_def)

lemma m_version_suffix_shape:
  assumes "m_version_suffix s = Some n"
  shows "\<exists>k. sep_shaped (take k s) \<and> k \<le> length s
             \<and> lower (take 17 (drop k s)) = ''version formulaid''"
proof -
  define a :: nat where "a = (if take 1 s = '','' then 1 else 0)"
  define b where "b = length (takeWhile isspace (drop a s))"
  from assms have l: "lower (take 17 (drop (a + b) s)) = ''version formulaid''"
    unfolding m_version_suffix_def Let_def a_def b_def by (simp split: if_splits)
  have tb: "take b (drop a s) = takeWhile isspace (drop a s)"
    unfolding b_def by (rule takeWhile_eq_take [symmetric])
  have ble: "b \<le> length (drop a s)" unfolding b_def by (rule length_takeWhile_le)
  have sh: "sep_shaped (take (a + b) s)"
  proof (cases "take 1 s = '',''")
    case True
    then have a1: "a = 1" by (simp add: a_def)
    from True obtain s' where s: "s = CHR '','' # s'" by (cases s) auto
    have "take (a + b) s = CHR '','' # takeWhile isspace s'"
      using a1 s tb by simp
    then show ?thesis by (simp add: sep_shaped_def list_all_iff) (auto dest: set_takeWhileD)
  next
    case False
    then have a0: "a = 0" by (simp add: a_def)
    then have t: "take (a + b) s = takeWhile isspace s" using tb by simp
    have all: "\<forall>c \<in> set (takeWhile isspace s). isspace c" by (auto dest: set_takeWhileD)
    show ?thesis
    proof (cases "takeWhile isspace s")
      case Nil
      then show ?thesis by (simp add: t sep_shaped_def)
    next
      case (Cons c cs)
      with all show ?thesis by (simp add: t sep_shaped_def list_all_iff)
    qed
  qed
  have "a \<le> length s" by (cases s) (auto simp: a_def)
  with ble have "a + b \<le> length s" by simp
  with sh l show ?thesis by blast
qed

lemma m_version_suffix_at_separator:
  assumes ws: "list_all isspace ws" and sep: "sep = ws \<or> sep = CHR '','' # ws"
    and v: "lower v = ''version formulaid''" and rest: "NL \<notin> set rest"
  shows "m_version_suffix (sep @ v @ rest) = Some (length (sep @ v @ rest))"
proof -
  from v have vs: "length v = 17" "v \<noteq> []" "\<not> isspace (hd v)" "hd v \<noteq> CHR '',''"
    using version_literal_shape by blast+
  from ws have wsall: "\<forall>c \<in> set ws. isspace c" by (simp add: list_all_iff)
  have tv: "takeWhile isspace (v @ rest) = []" using vs by (cases v) auto
  have tw: "takeWhile isspace (ws @ v @ rest) = ws"
  proof -
    have "takeWhile isspace (ws @ v @ rest) = ws @ takeWhile isspace (v @ rest)"
      using wsall by (intro takeWhile_append2) blast
    with tv show ?thesis by simp
  qed
  define a :: nat where "a = (if take 1 (sep @ v @ rest) = '','' then 1 else 0)"
  have da: "drop a (sep @ v @ rest) = ws @ v @ rest \<and> a + length ws = length sep"
  proof (cases "sep = ws")
    case True
    have "take 1 (ws @ v @ rest) \<noteq> '',''"
    proof (cases ws)
      case Nil
      then show ?thesis using vs by (cases v) auto
    next
      case (Cons c cs)
      with wsall have "isspace c" by simp
      then have "c \<noteq> CHR '',''" using not_space_comma by auto
      with Cons show ?thesis by simp
    qed
    then have "a = 0" using True by (simp add: a_def)
    with True show ?thesis by simp
  next
    case False
    with sep have s: "sep = CHR '','' # ws" by blast
    then have "a = 1" by (simp add: a_def)
    with s show ?thesis by simp
  qed
  let ?s = "sep @ v @ rest"
  from da have da1: "drop a ?s = ws @ v @ rest" and da2: "a + length ws = length sep" by blast+
  have b: "length (takeWhile isspace (drop a ?s)) = length ws" by (simp only: da1 tw)
  have "drop (a + length ws) ?s = drop (length ws) (drop a ?s)"
    by (simp only: drop_drop add.commute)
  then have r: "drop (a + length ws) ?s = v @ rest" by (simp only: da1) simp
  have tk: "take 17 (v @ rest) = v" and dk: "drop 17 (v @ rest) = rest" using vs by simp_all
  have "\<forall>x \<in> set rest. x \<noteq> NL" using rest by blast
  then have tr: "takeWhile (\<lambda>c. c \<noteq> NL) rest = rest" by (simp add: takeWhile_eq_all_conv)
  have dr: "drop (length rest) rest = []" by simp
  have ae: "at_end []" by (simp add: at_end_def)
  have "m_version_suffix ?s = Some (a + length ws + 17 + length rest)"
    by (simp only: m_version_suffix_def Let_def a_def [symmetric] b r tk dk v tr dr ae
        if_True simp_thms)
  then show ?thesis using da2 vs by simp
qed

lemma re_sub_skip:
  "(\<And>p1 q. p = p1 @ q \<Longrightarrow> q \<noteq> [] \<Longrightarrow> m (q @ t) = None) \<Longrightarrow>
   re_sub m r (p @ t) = p @ re_sub m r t"
proof (induction p)
  case Nil
  show ?case by simp
next
  case (Cons c p)
  have "m ((c # p) @ t) = None" using Cons.prems [of "[]" "c # p"] by simp
  then have "re_sub m r ((c # p) @ t) = c # re_sub m r (p @ t)" by simp
  moreover have "re_sub m r (p @ t) = p @ re_sub m r t"
  proof (rule Cons.IH)
    fix p1 q assume "p = p1 @ q" and "q \<noteq> []"
    then show "m (q @ t) = None" using Cons.prems [of "c # p1" q] by simp
  qed
  ultimately show ?case by simp
qed

lemma re_sub_whole:
  "t \<noteq> [] \<Longrightarrow> m t = Some (length t) \<Longrightarrow> m [] = None \<Longrightarrow> re_sub m r t = r"
  by (cases t) auto

lemma cut_separator_split:
  "\<exists>sep ws. pre = cut_separator pre @ sep \<and> list_all isspace ws
     \<and> ((sep = ws \<and> (cut_separator pre = []
            \<or> (\<not> isspace (last (cut_separator pre)) \<and> last (cut_separator pre) \<noteq> CHR '','')))
         \<or> sep = CHR '','' # ws)"
proof -
  define q where "q = rev (dropWhile isspace (rev pre))"
  define ws where "ws = rev (takeWhile isspace (rev pre))"
  have "rev (takeWhile isspace (rev pre) @ dropWhile isspace (rev pre)) = pre"
    by (simp only: takeWhile_dropWhile_id rev_rev_ident)
  then have pre: "pre = q @ ws" unfolding q_def ws_def by (simp only: rev_append)
  have wsall: "list_all isspace ws" unfolding ws_def list_all_iff by (auto dest: set_takeWhileD)
  have qlast: "q = [] \<or> \<not> isspace (last q)"
  proof (cases "dropWhile isspace (rev pre) = []")
    case True
    then show ?thesis by (simp add: q_def)
  next
    case False
    then have "\<not> isspace (hd (dropWhile isspace (rev pre)))" by (rule hd_dropWhile)
    then show ?thesis using False by (simp add: q_def last_rev)
  qed
  have cs: "cut_separator pre = (if q \<noteq> [] \<and> last q = CHR '','' then butlast q else q)"
    by (simp add: cut_separator_def q_def)
  show ?thesis
  proof (cases "q \<noteq> [] \<and> last q = CHR '',''")
    case True
    then have "q = butlast q @ [CHR '','']" by (metis append_butlast_last_id)
    then have "pre = butlast q @ (CHR '','' # ws)" using pre by (metis append_Cons append_Nil append_assoc)
    moreover have "cut_separator pre = butlast q" using True cs by simp
    ultimately show ?thesis using wsall by metis
  next
    case False
    then have c: "cut_separator pre = q" using cs by auto
    from False qlast have "q = [] \<or> (\<not> isspace (last q) \<and> last q \<noteq> CHR '','')" by blast
    with c pre wsall show ?thesis by metis
  qed
qed

lemma occurrence_before:
  assumes occ: "lower (take 17 (drop k s)) = ''version formulaid''" and k: "k + 17 \<le> m"
  shows "ci_occurs ''version formulaid'' (take m s)"
proof -
  from k obtain d where m: "m = k + (17 + d)" by (metis add.assoc le_Suc_ex)
  have "take m s = take k s @ take (17 + d) (drop k s)"
    unfolding m by (rule take_add)
  also have "take (17 + d) (drop k s) = take 17 (drop k s) @ take d (drop 17 (drop k s))"
    by (rule take_add)
  finally have "take m s = take k s @ take 17 (drop k s) @ take d (drop 17 (drop k s))" .
  with occ show ?thesis unfolding ci_occurs_def by blast
qed

lemma sep_shaped_Cons:
  "sep_shaped (c # xs) \<longleftrightarrow> (isspace c \<or> c = CHR '','') \<and> list_all isspace xs"
  by (simp add: sep_shaped_def)

lemma no_match_before_separator:
  assumes v: "lower v = ''version formulaid''"
    and first: "\<not> ci_occurs ''version formulaid'' (pre @ butlast v)"
    and split: "pre = p0 @ sep" and ws: "list_all isspace ws"
    and shape: "(sep = ws \<and> (p0 = [] \<or> (\<not> isspace (last p0) \<and> last p0 \<noteq> CHR '','')))
                \<or> sep = CHR '','' # ws"
    and q: "p0 = p1 @ q" "q \<noteq> []"
  shows "m_version_suffix (q @ sep @ v @ rest) = None"
proof (rule ccontr)
  assume "m_version_suffix (q @ sep @ v @ rest) \<noteq> None"
  then obtain n where "m_version_suffix (q @ sep @ v @ rest) = Some n" by auto
  from m_version_suffix_shape [OF this]
  obtain k where sh: "sep_shaped (take k (q @ sep @ v @ rest))"
    and occ: "lower (take 17 (drop k (q @ sep @ v @ rest))) = ''version formulaid''"
    by blast
  from v have vs: "length v = 17" "v \<noteq> []" "\<not> isspace (hd v)" "hd v \<noteq> CHR '',''"
    using version_literal_shape by blast+
  from q obtain c q' where qc: "q = c # q'" by (cases q) auto
  define j where "j = length (q @ sep)"
  have s': "q @ sep @ v @ rest = (q @ sep) @ v @ rest" by simp
  consider "k < j" | "j < k" | "k = j" by arith
  then show False
  proof cases
    case 1
    then have "k + 17 \<le> j + 16" by simp
    with occ have "ci_occurs ''version formulaid'' (take (j + 16) (q @ sep @ v @ rest))"
      by (rule occurrence_before)
    moreover have "take (j + 16) ((q @ sep) @ v @ rest) = (q @ sep) @ take 16 (v @ rest)"
      unfolding j_def by simp
    moreover have "take 16 (v @ rest) = butlast v" using vs by (simp add: butlast_conv_take)
    ultimately have "ci_occurs ''version formulaid'' (q @ sep @ butlast v)" by (simp only: s') simp
    then have "ci_occurs ''version formulaid'' (p1 @ (q @ sep @ butlast v) @ [])"
      by (rule ci_occurs_append)
    then have "ci_occurs ''version formulaid'' (pre @ butlast v)" using split q by simp
    with first show False by contradiction
  next
    case 2
    define d where "d = k - j - 1"
    from 2 have kd: "k = j + Suc d" unfolding d_def by arith
    have "take k ((q @ sep) @ v @ rest) = (q @ sep) @ take (Suc d) (v @ rest)"
      unfolding kd j_def by simp
    moreover have "take (Suc d) (v @ rest) = hd v # take d (tl v @ rest)"
      using vs by (cases v) auto
    ultimately have tk: "take k (q @ sep @ v @ rest) = c # (q' @ sep @ hd v # take d (tl v @ rest))"
      using qc by (simp only: s') simp
    from sh have "sep_shaped (c # (q' @ sep @ hd v # take d (tl v @ rest)))"
      by (simp only: tk)
    then have "list_all isspace (q' @ sep @ hd v # take d (tl v @ rest))"
      by (simp only: sep_shaped_Cons)
    then have "isspace (hd v)" by (simp add: list_all_iff)
    with vs(3) show False by contradiction
  next
    case 3
    then have "take k ((q @ sep) @ v @ rest) = q @ sep" unfolding j_def by simp
    then have tk: "take k (q @ sep @ v @ rest) = c # (q' @ sep)" using qc by (simp only: s') simp
    from sh have "sep_shaped (c # (q' @ sep))" by (simp only: tk)
    then have c: "isspace c \<or> c = CHR '',''" and all: "list_all isspace (q' @ sep)"
      by (simp_all only: sep_shaped_Cons)
    from shape show False
    proof
      assume "sep = CHR '','' # ws"
      with all have "isspace CHR '',''" by (simp add: list_all_iff)
      with not_space_comma show False by contradiction
    next
      assume a: "sep = ws \<and> (p0 = [] \<or> (\<not> isspace (last p0) \<and> last p0 \<noteq> CHR '',''))"
      from q have "p0 \<noteq> []" by simp
      with a have l: "\<not> isspace (last p0)" "last p0 \<noteq> CHR '',''" by blast+
      from q have lq: "last p0 = last q" by simp
      show False
      proof (cases q')
        case Nil
        with qc lq have "last p0 = c" by simp
        with c l show False by blast
      next
        case (Cons x xs)
        with qc lq have "last p0 = last q'" by simp
        moreover from Cons have "last q' \<in> set q'" by (intro last_in_set) simp
        moreover from all have "\<forall>y \<in> set q'. isspace y" by (simp add: list_all_iff)
        ultimately show False using l by metis
      qed
    qed
  qed
qed

lemma re_sub_version_suffix_cut:
  assumes v: "lower v = ''version formulaid''"
    and first: "\<not> ci_occurs ''version formulaid'' (pre @ butlast v)"
    and rest: "NL \<notin> set rest"
  shows "re_sub m_version_suffix [] (pre @ v @ rest) = cut_separator pre"
proof -
  from cut_separator_split [of pre]
  obtain sep ws where split: "pre = cut_separator pre @ sep" and ws: "list_all isspace ws"
    and shape: "(sep = ws \<and> (cut_separator pre = []
            \<or> (\<not> isspace (last (cut_separator pre)) \<and> last (cut_separator pre) \<noteq> CHR '','')))
         \<or> sep = CHR '','' # ws"
    by blast
  define p0 where "p0 = cut_separator pre"
  define t where "t = sep @ v @ rest"
  from v have "v \<noteq> []" using version_literal_shape by blast
  then have tne: "t \<noteq> []" by (simp add: t_def)
  from shape have sepc: "sep = ws \<or> sep = CHR '','' # ws" by blast
  have "m_version_suffix t = Some (length t)"
    unfolding t_def using ws sepc v rest by (rule m_version_suffix_at_separator)
  with tne have whole: "re_sub m_version_suffix [] t = []"
    using m_version_suffix_Nil by (rule re_sub_whole)
  have skip: "re_sub m_version_suffix [] (p0 @ t) = p0 @ re_sub m_version_suffix [] t"
  proof (rule re_sub_skip)
    fix p1 q assume "p0 = p1 @ q" and "q \<noteq> []"
    with v first split [folded p0_def] ws shape [folded p0_def]
    show "m_version_suffix (q @ t) = None"
      unfolding t_def by (rule no_match_before_separator)
  qed
  have "pre @ v @ rest = p0 @ t" using split by (simp add: p0_def t_def)
  with skip whole show ?thesis by (simp add: p0_def)
qed

subsection \<open>What a conversion writes\<close>

lemma convert_one_written_world:
  assumes "read_docx_text (HAS_PYTHON_DOCX w) (package_at w p) = Inr body_text"
    and "open_error w (output_path outdir p) = None"
  shows "convert_one w p outdir =
     (Inr (output_path outdir p),
      w\<lparr>ticks := Suc (ticks w),
        files := (files w)(output_path outdir p \<mapsto>
          Markdown_file (markdown_of (basename p) (utcnow w (ticks w)) body_text))\<rparr>)"
  using assms by (simp add: convert_one_def Let_def output_path_def markdown_of_def)

lemma convert_one_open_error_world:
  assumes "read_docx_text (HAS_PYTHON_DOCX w) (package_at w p) = Inr body_text"
    and "open_error w (output_path outdir p) = Some e"
  shows "convert_one w p outdir = (Inl e, w\<lparr>ticks := Suc (ticks w)\<rparr>)"
  using assms by (simp add: convert_one_def Let_def output_path_def)

lemma main_step_written:
  assumes "files w p \<noteq> None" and "endswith (lower p) ''.docx''"
    and "read_docx_text (HAS_PYTHON_DOCX w) (package_at w p) = Inr body_text"
    and "open_error w (output_path outdir p) = None"
  shows "main_step w outdir p =
     (output_path outdir p,
      w\<lparr>ticks := Suc (ticks w),
        files := (files w)(output_path outdir p \<mapsto>
          Markdown_file (markdown_of (basename p) (utcnow w (ticks w)) body_text))\<rparr>)"
  using assms(1,2) by (auto simp add: main_step_def convert_one_written_world [OF assms(3,4)])



lemma convert_one_files_other:
  "q \<noteq> output_path outdir p \<Longrightarrow> files (snd (convert_one w p outdir)) q = files w q"
proof (cases "read_docx_text (HAS_PYTHON_DOCX w) (package_at w p)")
  case (Inl e)
  then show ?thesis by (simp add: convert_one_read_error)
next
  case (Inr body_text)
  assume q: "q \<noteq> output_path outdir p"
  show ?thesis
  proof (cases "open_error w (output_path outdir p)")
    case None
    with Inr q show ?thesis by (simp add: convert_one_written_world)
  next
    case (Some e)
    with Inr show ?thesis by (simp add: convert_one_open_error_world)
  qed
qed

lemma convert_one_utcnow: "utcnow (snd (convert_one w p outdir)) = utcnow w"
proof (cases "read_docx_text (HAS_PYTHON_DOCX w) (package_at w p)")
  case (Inl e)
  then show ?thesis by (simp add: convert_one_read_error)
next
  case (Inr body_text)
  show ?thesis
  proof (cases "open_error w (output_path outdir p)")
    case None
    with Inr show ?thesis by (simp add: convert_one_written_world)
  next
    case (Some e)
    with Inr show ?thesis by (simp add: convert_one_open_error_world)
  qed
qed

lemma main_step_world:
  "snd (main_step w outdir p) = w \<or> snd (main_step w outdir p) = snd (convert_one w p outdir)"
  by (cases "convert_one w p outdir")
     (simp add: main_step_def split: sum.splits error.splits)

lemma main_step_files_other:
  "q \<noteq> output_path outdir p \<Longrightarrow> files (snd (main_step w outdir p)) q = files w q"
  using main_step_world [of w outdir p] convert_one_files_other [of q outdir p w] by auto

lemma main_step_utcnow: "utcnow (snd (main_step w outdir p)) = utcnow w"
  using main_step_world [of w outdir p] convert_one_utcnow [of w p outdir] by auto

lemma main_loop_snd_Cons:
  "snd (main_loop w outdir (p # ps)) = snd (main_loop (snd (main_step w outdir p)) outdir ps)"
  by (simp add: split_beta)

lemma main_loop_append:
  "fst (main_loop w outdir (xs @ ys))
     = fst (main_loop w outdir xs) @ fst (main_loop (snd (main_loop w outdir xs)) outdir ys)
   \<and> snd (main_loop w outdir (xs @ ys))
     = snd (main_loop (snd (main_loop w outdir xs)) outdir ys)"
proof (induction xs arbitrary: w)
  case Nil
  show ?case by simp
next
  case (Cons p ps)
  show ?case
    by (simp only: append_Cons main_loop_Cons main_loop_snd_Cons Cons.IH simp_thms)
qed

lemma main_loop_nth:
  assumes "i < length inputs"
  shows "snd (fst (main_loop w outdir inputs) ! i)
     = fst (main_step (snd (main_loop w outdir (take i inputs))) outdir (inputs ! i))"
proof -
  let ?xs = "take i inputs" and ?ys = "drop (Suc i) inputs"
  let ?wi = "snd (main_loop w outdir ?xs)"
  have inp: "inputs = ?xs @ (inputs ! i # ?ys)" using assms by (rule id_take_nth_drop)
  have "fst (main_loop w outdir (?xs @ (inputs ! i # ?ys)))
      = fst (main_loop w outdir ?xs) @ fst (main_loop ?wi outdir (inputs ! i # ?ys))"
    using main_loop_append by blast
  moreover have "length (fst (main_loop w outdir ?xs)) = i"
    using assms by (simp add: main_loop_length)
  ultimately have "fst (main_loop w outdir (?xs @ (inputs ! i # ?ys))) ! i
      = fst (main_loop ?wi outdir (inputs ! i # ?ys)) ! 0"
    by (simp add: nth_append)
  also have "\<dots> = (inputs ! i, fst (main_step ?wi outdir (inputs ! i)))"
    by (simp only: main_loop_Cons nth_Cons_0)
  finally show ?thesis using inp by simp
qed

lemma main_loop_files_other:
  "(\<forall>p \<in> set inputs. output_path outdir p \<noteq> q) \<Longrightarrow>
   files (snd (main_loop w outdir inputs)) q = files w q"
proof (induction inputs arbitrary: w)
  case Nil
  show ?case by simp
next
  case (Cons p ps)
  then have a: "q \<noteq> output_path outdir p" and b: "\<forall>p \<in> set ps. output_path outdir p \<noteq> q"
    by auto
  have "files (snd (main_loop (snd (main_step w outdir p)) outdir ps)) q
      = files (snd (main_step w outdir p)) q"
    using b by (rule Cons.IH)
  also have "\<dots> = files w q" using a by (rule main_step_files_other)
  finally show ?case by (simp only: main_loop_snd_Cons)
qed

lemma main_loop_same_inputs: "same_inputs w (snd (main_loop w outdir inputs))"
proof (induction inputs arbitrary: w)
  case Nil
  show ?case by (simp add: same_inputs_refl)
next
  case (Cons p ps)
  have "same_inputs w (snd (main_step w outdir p))" by (rule main_step_same_inputs)
  then show ?case
    using Cons.IH [of "snd (main_step w outdir p)"]
    by (simp only: main_loop_snd_Cons) (rule same_inputs_trans)
qed

lemma main_loop_utcnow: "utcnow (snd (main_loop w outdir inputs)) = utcnow w"
proof (induction inputs arbitrary: w)
  case Nil
  show ?case by simp
next
  case (Cons p ps)
  show ?case by (simp only: main_loop_snd_Cons Cons.IH main_step_utcnow)
qed

lemma main_loop_file_written:
  assumes i: "i < length inputs" and d: "endswith (lower (inputs ! i)) ''.docx''"
    and f: "files w (inputs ! i) \<noteq> None"
    and r: "read_docx_text (HAS_PYTHON_DOCX w) (package_at w (inputs ! i)) = Inr body_text"
    and o: "open_error w (output_path outdir (inputs ! i)) = None"
    and later: "\<forall>j<length inputs. i < j \<longrightarrow>
                 output_path outdir (inputs ! j) \<noteq> output_path outdir (inputs ! i)"
  shows "\<exists>n. files (snd (main_loop w outdir inputs)) (output_path outdir (inputs ! i))
     = Some (Markdown_file (markdown_of (basename (inputs ! i)) (utcnow w n) body_text))"
proof -
  let ?p = "inputs ! i"
  let ?out = "output_path outdir ?p"
  let ?xs = "take i inputs" and ?ys = "drop (Suc i) inputs"
  let ?wi = "snd (main_loop w outdir ?xs)"
  have si: "same_inputs w ?wi" by (rule main_loop_same_inputs)
  then have fw: "files ?wi ?p = files w ?p" and ow: "open_error ?wi = open_error w"
    and hw: "HAS_PYTHON_DOCX ?wi = HAS_PYTHON_DOCX w"
    using d by (simp_all add: same_inputs_def)
  from fw have pk: "package_at ?wi ?p = package_at w ?p" by (simp add: package_at_def)
  have uw: "utcnow ?wi = utcnow w" by (rule main_loop_utcnow)
  have step: "main_step ?wi outdir ?p =
     (?out, ?wi\<lparr>ticks := Suc (ticks ?wi),
        files := (files ?wi)(?out \<mapsto>
          Markdown_file (markdown_of (basename ?p) (utcnow ?wi (ticks ?wi)) body_text))\<rparr>)"
  proof (rule main_step_written)
    show "files ?wi ?p \<noteq> None" using f fw by simp
    show "endswith (lower ?p) ''.docx''" by (rule d)
    show "read_docx_text (HAS_PYTHON_DOCX ?wi) (package_at ?wi ?p) = Inr body_text"
      using r hw pk by simp
    show "open_error ?wi ?out = None" using o ow by simp
  qed
  have inp: "inputs = ?xs @ (?p # ?ys)" using i by (rule id_take_nth_drop)
  have "snd (main_loop w outdir (?xs @ (?p # ?ys))) = snd (main_loop ?wi outdir (?p # ?ys))"
    using main_loop_append by blast
  also have "\<dots> = snd (main_loop (snd (main_step ?wi outdir ?p)) outdir ?ys)"
    by (rule main_loop_snd_Cons)
  finally have fin: "snd (main_loop w outdir inputs)
      = snd (main_loop (snd (main_step ?wi outdir ?p)) outdir ?ys)"
    using inp by simp
  have "\<forall>p' \<in> set ?ys. output_path outdir p' \<noteq> ?out"
  proof
    fix p' assume "p' \<in> set ?ys"
    then obtain k where k: "k < length ?ys" and pk': "?ys ! k = p'"
      by (auto simp: in_set_conv_nth)
    from k have "Suc i + k < length inputs" by simp
    moreover have "inputs ! (Suc i + k) = p'" using pk' k by simp
    ultimately show "output_path outdir p' \<noteq> ?out" using later by force
  qed
  then have "files (snd (main_loop (snd (main_step ?wi outdir ?p)) outdir ?ys)) ?out
      = files (snd (main_step ?wi outdir ?p)) ?out"
    by (rule main_loop_files_other)
  also have "\<dots> = Some (Markdown_file (markdown_of (basename ?p) (utcnow w (ticks ?wi)) body_text))"
    by (simp add: step uw)
  finally show ?thesis using fin by auto
qed

section \<open>Fence language selection\<close>

text \<open>
  C9. The fence language tag is chosen by case-insensitive substring match against the
  ordered table, the first match winning: a name in which \<open>cargo.toml\<close>,
  \<open>rust-toolchain.toml\<close> or \<open>config.toml\<close> occurs gets \<open>toml\<close>; otherwise one in which
  \<open>makefile\<close> occurs gets \<open>makefile\<close>; otherwise one in which \<open>.gitignore\<close> or
  \<open>gitignore\<close> occurs gets \<open>gitignore\<close>; otherwise the tag is empty. The name
  \<open>Cargo.toml.docx\<close> gets \<open>toml\<close> and \<open>notes.docx\<close> gets no tag.
\<close>

theorem detect_language_table:
  "detect_language_from_name name =
     (if ci_occurs ''cargo.toml'' name \<or> ci_occurs ''rust-toolchain.toml'' name
         \<or> ci_occurs ''config.toml'' name then ''toml''
      else if ci_occurs ''makefile'' name then ''makefile''
      else if ci_occurs ''.gitignore'' name \<or> ci_occurs ''gitignore'' name then ''gitignore''
      else '''')
   \<and> detect_language_from_name ''Cargo.toml.docx'' = ''toml''
   \<and> detect_language_from_name ''notes.docx'' = ''''"
proof -
  have a: "detect_language_from_name ''Cargo.toml.docx'' = ''toml''" by code_simp
  have b: "detect_language_from_name ''notes.docx'' = ''''" by code_simp
  show ?thesis
    using a b by (simp add: detect_language_from_name_def Let_def contains_lower_iff)
qed

text \<open>The table at the name \<open>GNUMakefile.docx\<close>: the second row applies.\<close>

theorem detect_language_table_witness:
  "ci_occurs ''makefile'' ''GNUMakefile.docx'' \<and> detect_language_from_name ''GNUMakefile.docx'' = ''makefile''"
proof -
  have "''GNUMakefile.docx'' = ''GNU'' @ ''Makefile'' @ ''.docx'' \<and> lower ''Makefile'' = ''makefile''"
    by code_simp
  then have occ: "ci_occurs ''makefile'' ''GNUMakefile.docx''"
    unfolding ci_occurs_def by blast
  have "\<not> contains ''cargo.toml'' (lower ''GNUMakefile.docx'')"
       "\<not> contains ''rust-toolchain.toml'' (lower ''GNUMakefile.docx'')"
       "\<not> contains ''config.toml'' (lower ''GNUMakefile.docx'')"
    by code_simp+
  then have no: "\<not> ci_occurs ''cargo.toml'' ''GNUMakefile.docx''"
       "\<not> ci_occurs ''rust-toolchain.toml'' ''GNUMakefile.docx''"
       "\<not> ci_occurs ''config.toml'' ''GNUMakefile.docx''"
    by (simp_all add: contains_lower_iff)
  from detect_language_table [of "''GNUMakefile.docx''"] occ no
  show ?thesis by simp
qed

section \<open>Text normalisation is idempotent\<close>

text \<open>
  C3. The Text Normalizer is idempotent: normalising an already normalised string returns
  it unchanged, for every string. On its own output the collapsing step finds no run of
  three newlines and the trimming step finds no whitespace at either end.
\<close>

theorem normalize_text_idempotent:
  "normalize_text (normalize_text s) = normalize_text s
   \<and> re_sub m_newlines [NL, NL] (normalize_text s) = normalize_text s
   \<and> strip (normalize_text s) = normalize_text s"
proof -
  have "nl3_free (re_sub m_newlines [NL, NL] s)" using re_sub_newlines_shape by blast
  then have "nl3_free (normalize_text s)" unfolding normalize_text_def by (rule nl3_free_strip)
  then have c: "re_sub m_newlines [NL, NL] (normalize_text s) = normalize_text s"
    by (rule re_sub_newlines_id)
  have t: "strip (normalize_text s) = normalize_text s"
    by (simp add: normalize_text_def strip_strip)
  have "normalize_text (normalize_text s) = strip (normalize_text s)"
    using c by (simp add: normalize_text_def)
  with c t show ?thesis by simp
qed

text \<open>Idempotence at a string with a run of four newlines and blanks at both ends.\<close>

theorem normalize_text_idempotent_witness:
  "normalize_text ('' a'' @ [NL, NL, NL, NL] @ ''b '') = ''a'' @ [NL, NL] @ ''b''
   \<and> normalize_text (normalize_text ('' a'' @ [NL, NL, NL, NL] @ ''b ''))
       = ''a'' @ [NL, NL] @ ''b''"
proof -
  have v: "normalize_text ('' a'' @ [NL, NL, NL, NL] @ ''b '') = ''a'' @ [NL, NL] @ ''b''"
    by code_simp
  from normalize_text_idempotent [of "'' a'' @ [NL, NL, NL, NL] @ ''b ''"] v
  show ?thesis by simp
qed

section \<open>The Text Normalizer\<close>

text \<open>
  C4. For every fragment sequence the Text Normalizer filters out only the \<^verbatim>\<open>None\<close>
  entries (empty fragments are kept), joins the remaining fragments with a single
  newline, collapses every run of three or more consecutive newlines to exactly two, and
  trims leading and trailing whitespace of the whole result. The fragment list
  \<^verbatim>\<open>["a", "", "", "", "b"]\<close> normalises to \<^verbatim>\<open>"a\n\nb"\<close>.
\<close>

theorem text_normalizer_spec:
  "normalize_text (join_parts parts) = spec_normalizer parts
   \<and> normalize_text (join_parts [Some ''a'', Some '''', Some '''', Some '''', Some ''b''])
       = ''a'' @ [NL, NL] @ ''b''"
proof -
  have g: "normalize_text (join_parts parts) = spec_normalizer parts"
    by (simp add: normalize_text_def join_parts_def spec_normalizer_def keep_spec join_spec
        re_sub_newlines_spec)
  have e: "normalize_text (join_parts [Some ''a'', Some '''', Some '''', Some '''', Some ''b''])
       = ''a'' @ [NL, NL] @ ''b''"
    by code_simp
  from g e show ?thesis by simp
qed

text \<open>A fragment list with \<^verbatim>\<open>None\<close> entries, empty fragments and blanks at both ends.\<close>

theorem text_normalizer_spec_witness:
  "spec_normalizer [Some '' x'', None, Some '''', None, Some ''y'', Some '''', Some '''', Some ''z '']
     = ''x'' @ [NL, NL] @ ''y'' @ [NL, NL] @ ''z''"
proof -
  have "normalize_text (join_parts [Some '' x'', None, Some '''', None, Some ''y'', Some '''', Some '''', Some ''z ''])
     = ''x'' @ [NL, NL] @ ''y'' @ [NL, NL] @ ''z''"
    by code_simp
  with text_normalizer_spec [of "[Some '' x'', None, Some '''', None, Some ''y'', Some '''', Some '''', Some ''z '']"]
  show ?thesis by simp
qed

section \<open>The walk over the document body\<close>

text \<open>
  C1. For a body with paragraph P1, table T and paragraph P2 the fragment sequence should
  be P1, the cell texts of T, one empty fragment, P2, every paragraph and table
  contributing once. The loop of \<^verbatim>\<open>read_docx_text_python_docx\<close> runs over
  \<^verbatim>\<open>body.iter()\<close>, which yields all descendants and not only the children of the body:
  after the table branch has emitted the cell texts and the empty fragment, the walk
  reaches the paragraph inside the cell and emits its text a second time. For the
  paragraphs \<open>A\<close> and \<open>B\<close> around a table with the one cell \<open>c\<close> the fragments are
  \<open>A\<close>, \<open>c\<close>, the empty fragment, \<open>c\<close> again, \<open>B\<close>, and the extracted text repeats \<open>c\<close>.
\<close>

theorem walker_rewalks_table_paragraphs:
  "body_parts (w_element ''body'' [w_p ''A'', w_tbl [[w_p ''c'']], w_p ''B''])
     = [''A'', ''c'', '''', ''c'', ''B'']
   \<and> read_docx_text_python_docx (package_of (w_document [w_p ''A'', w_tbl [[w_p ''c'']], w_p ''B'']))
     = Inr (''A'' @ [NL] @ ''c'' @ [NL, NL] @ ''c'' @ [NL] @ ''B'')"
  by code_simp

section \<open>The two extraction paths compared\<close>

text \<open>
  The two paths differ on a document with a table: the structured path has a table
  branch, the raw path has none and takes the paragraphs only.
\<close>

theorem paths_differ_on_table:
  "read_docx_text_python_docx (package_of (w_document [w_p ''A'', w_tbl [[w_p ''c'']], w_p ''B'']))
     = Inr (''A'' @ [NL] @ ''c'' @ [NL, NL] @ ''c'' @ [NL] @ ''B'')
   \<and> read_docx_text_zipxml (package_of (w_document [w_p ''A'', w_tbl [[w_p ''c'']], w_p ''B'']))
     = Inr (''A'' @ [NL] @ ''c'' @ [NL] @ ''B'')
   \<and> read_docx_text_python_docx (package_of (w_document [w_p ''A'', w_tbl [[w_p ''c'']], w_p ''B'']))
     \<noteq> read_docx_text_zipxml (package_of (w_document [w_p ''A'', w_tbl [[w_p ''c'']], w_p ''B'']))"
  by code_simp

text \<open>
  C2 (amended). On a package that both libraries parse to the same root, whose root has
  the body as its only child, and whose body holds no table and no element named \<^verbatim>\<open>p\<close>
  outside the WordprocessingML namespace, the structured path and the raw path return
  the same string, so \<^verbatim>\<open>read_docx_text\<close> returns the same with and without the library.
\<close>

theorem paths_agree_without_tables:
  assumes "docx_Document pkg = Inr root" and "zip_document_xml pkg = Inr root"
    and "children root = [body]" and "tag body = w_ns @ ''body''" and "plain_body body"
  shows "read_docx_text_python_docx pkg = read_docx_text_zipxml pkg
         \<and> read_docx_text True pkg = read_docx_text False pkg"
proof -
  have b: "element_body root = Some body" using assms(3,4) by (rule element_body_single)
  have parts: "body_parts body = map paragraph_text (findall_w_p root)"
    using assms(3,5) by (rule plain_body_parts)
  have py: "read_docx_text_python_docx pkg
      = Inr (normalize_text (join [NL] (map paragraph_text (findall_w_p root))))"
    by (simp only: read_docx_text_python_docx_def assms(1) b parts Let_def join_parts_Some
        sum.case option.case)
  have raw: "read_docx_text_zipxml pkg
      = Inr (normalize_text (join [NL] (map paragraph_text (findall_w_p root))))"
    by (simp only: read_docx_text_zipxml_def assms(2) Let_def sum.case)
  have eq: "read_docx_text_python_docx pkg = read_docx_text_zipxml pkg"
    by (simp only: py raw)
  have "read_docx_text True pkg = read_docx_text_zipxml pkg"
    by (simp only: read_docx_text_def if_True py raw sum.case)
  moreover have "read_docx_text False pkg = read_docx_text_zipxml pkg"
    by (simp only: read_docx_text_def if_False)
  ultimately show ?thesis using eq by (simp only: simp_thms)
qed

text \<open>Two paragraphs and no table: both paths give the two lines.\<close>

theorem paths_agree_without_tables_witness:
  "read_docx_text_python_docx (package_of (w_document [w_p ''A'', w_p '' B '']))
     = Inr (''A'' @ [NL] @ ''B'')
   \<and> read_docx_text_zipxml (package_of (w_document [w_p ''A'', w_p '' B '']))
     = Inr (''A'' @ [NL] @ ''B'')
   \<and> read_docx_text True (package_of (w_document [w_p ''A'', w_p '' B '']))
     = read_docx_text False (package_of (w_document [w_p ''A'', w_p '' B '']))"
proof -
  let ?body = "w_element ''body'' [w_p ''A'', w_p '' B '']"
  let ?root = "w_document [w_p ''A'', w_p '' B '']"
  have 1: "docx_Document (package_of ?root) = Inr ?root" by (simp add: package_of_def)
  have 2: "zip_document_xml (package_of ?root) = Inr ?root" by (simp add: package_of_def)
  have 3: "children ?root = [?body]" by (simp add: w_document_def w_element_def)
  have 4: "tag ?body = w_ns @ ''body''" by (simp add: w_element_def)
  have 5: "plain_body ?body" by code_simp
  have 6: "read_docx_text_zipxml (package_of ?root) = Inr (''A'' @ [NL] @ ''B'')" by code_simp
  from paths_agree_without_tables [OF 1 2 3 4 5] 6 show ?thesis by simp
qed

section \<open>Non-empty documents give non-empty text\<close>




section \<open>Fallback to the raw path\<close>




section \<open>The batch report\<close>

text \<open>
  C7. Every input of a batch yields exactly one report entry, in the order of the inputs:
  the entry that one pass of the loop gives in the world as the earlier inputs left it.
  The entry is \<open>MISSING\<close> when the path does not exist and \<open>SKIPPED (not .docx)\<close> when
  the extension is wrong, both decided without opening the file and leaving the world
  as it is; otherwise it is the output path when the conversion succeeds and \<open>ERROR:\<close>
  with the message when it raises. For an input without the extension the entry is
  \<open>MISSING\<close> exactly when the path does not exist at the moment the input is reached,
  which is the initial state of the path unless an earlier input wrote to it. The entry
  of an input with the extension \<^verbatim>\<open>.docx\<close> is the one the input gets when it is processed
  alone: no other input of the batch, failing or not, changes it. An input that converts
  has its Markdown file in the final world, with its name, its text and a time stamp,
  unless a later input writes to the same output path; and no path other than the output
  paths of the inputs is changed.
\<close>

theorem batch_report:
  "map fst (fst (main_loop w outdir inputs)) = inputs
   \<and> (\<forall>i<length inputs.
         snd (fst (main_loop w outdir inputs) ! i)
           = fst (main_step (snd (main_loop w outdir (take i inputs))) outdir (inputs ! i)))
   \<and> (\<forall>i<length inputs. endswith (lower (inputs ! i)) ''.docx'' \<longrightarrow>
         snd (fst (main_loop w outdir inputs) ! i) = fst (main_step w outdir (inputs ! i)))
   \<and> (\<forall>i<length inputs. \<not> endswith (lower (inputs ! i)) ''.docx'' \<longrightarrow>
         snd (fst (main_loop w outdir inputs) ! i)
           = (if files (snd (main_loop w outdir (take i inputs))) (inputs ! i) = None
              then ''MISSING'' else ''SKIPPED (not .docx)''))
   \<and> (\<forall>i<length inputs. (\<forall>j<i. output_path outdir (inputs ! j) \<noteq> inputs ! i) \<longrightarrow>
         files (snd (main_loop w outdir (take i inputs))) (inputs ! i) = files w (inputs ! i))
   \<and> (\<forall>w' path. fst (main_step w' outdir path) =
         (if files w' path = None then ''MISSING''
          else if \<not> endswith (lower path) ''.docx'' then ''SKIPPED (not .docx)''
          else (case fst (convert_one w' path outdir) of
                  Inr outp \<Rightarrow> outp
                | Inl (Error msg) \<Rightarrow> ''ERROR: '' @ msg)))
   \<and> (\<forall>w' path. files w' path = None \<or> \<not> endswith (lower path) ''.docx'' \<longrightarrow>
         snd (main_step w' outdir path) = w')
   \<and> (\<forall>i<length inputs. \<forall>body_text.
         endswith (lower (inputs ! i)) ''.docx'' \<and> files w (inputs ! i) \<noteq> None
         \<and> read_docx_text (HAS_PYTHON_DOCX w) (package_at w (inputs ! i)) = Inr body_text
         \<and> open_error w (output_path outdir (inputs ! i)) = None
         \<and> (\<forall>j<length inputs. i < j \<longrightarrow>
               output_path outdir (inputs ! j) \<noteq> output_path outdir (inputs ! i))
         \<longrightarrow> snd (fst (main_loop w outdir inputs) ! i) = output_path outdir (inputs ! i)
            \<and> (\<exists>n. files (snd (main_loop w outdir inputs)) (output_path outdir (inputs ! i))
                  = Some (Markdown_file
                      (markdown_of (basename (inputs ! i)) (utcnow w n) body_text))))
   \<and> (\<forall>q. (\<forall>p \<in> set inputs. output_path outdir p \<noteq> q) \<longrightarrow>
         files (snd (main_loop w outdir inputs)) q = files w q)"
proof (intro conjI allI impI)
  show "map fst (fst (main_loop w outdir inputs)) = inputs" by (rule main_loop_inputs)
next
  fix i assume "i < length inputs"
  then show "snd (fst (main_loop w outdir inputs) ! i)
           = fst (main_step (snd (main_loop w outdir (take i inputs))) outdir (inputs ! i))"
    by (rule main_loop_nth)
next
  fix i assume "i < length inputs" and "endswith (lower (inputs ! i)) ''.docx''"
  with same_inputs_refl
  show "snd (fst (main_loop w outdir inputs) ! i) = fst (main_step w outdir (inputs ! i))"
    by (rule main_loop_isolated)
next
  fix i assume i: "i < length inputs" and n: "\<not> endswith (lower (inputs ! i)) ''.docx''"
  from i have "snd (fst (main_loop w outdir inputs) ! i)
           = fst (main_step (snd (main_loop w outdir (take i inputs))) outdir (inputs ! i))"
    by (rule main_loop_nth)
  with n show "snd (fst (main_loop w outdir inputs) ! i)
           = (if files (snd (main_loop w outdir (take i inputs))) (inputs ! i) = None
              then ''MISSING'' else ''SKIPPED (not .docx)'')"
    by (simp add: main_step_status)
next
  fix i assume i: "i < length inputs"
    and o: "\<forall>j<i. output_path outdir (inputs ! j) \<noteq> inputs ! i"
  have "\<forall>p \<in> set (take i inputs). output_path outdir p \<noteq> inputs ! i"
  proof
    fix p assume "p \<in> set (take i inputs)"
    then obtain j where "j < length (take i inputs)" and "take i inputs ! j = p"
      by (auto simp: in_set_conv_nth)
    then have "j < i" and "inputs ! j = p" using i by simp_all
    with o show "output_path outdir p \<noteq> inputs ! i" by blast
  qed
  then show "files (snd (main_loop w outdir (take i inputs))) (inputs ! i) = files w (inputs ! i)"
    by (rule main_loop_files_other)
next
  fix w' :: world and path
  show "fst (main_step w' outdir path) =
         (if files w' path = None then ''MISSING''
          else if \<not> endswith (lower path) ''.docx'' then ''SKIPPED (not .docx)''
          else (case fst (convert_one w' path outdir) of
                  Inr outp \<Rightarrow> outp
                | Inl (Error msg) \<Rightarrow> ''ERROR: '' @ msg))"
    by (rule main_step_status)
next
  fix w' :: world and path assume "files w' path = None \<or> \<not> endswith (lower path) ''.docx''"
  then show "snd (main_step w' outdir path) = w'" by (rule main_step_early)
next
  fix i body_text
  assume i: "i < length inputs"
    and a: "endswith (lower (inputs ! i)) ''.docx'' \<and> files w (inputs ! i) \<noteq> None
         \<and> read_docx_text (HAS_PYTHON_DOCX w) (package_at w (inputs ! i)) = Inr body_text
         \<and> open_error w (output_path outdir (inputs ! i)) = None
         \<and> (\<forall>j<length inputs. i < j \<longrightarrow>
               output_path outdir (inputs ! j) \<noteq> output_path outdir (inputs ! i))"
  then have d: "endswith (lower (inputs ! i)) ''.docx''" and f: "files w (inputs ! i) \<noteq> None"
    and r: "read_docx_text (HAS_PYTHON_DOCX w) (package_at w (inputs ! i)) = Inr body_text"
    and o: "open_error w (output_path outdir (inputs ! i)) = None"
    and l: "\<forall>j<length inputs. i < j \<longrightarrow>
               output_path outdir (inputs ! j) \<noteq> output_path outdir (inputs ! i)"
    by blast+
  have "snd (fst (main_loop w outdir inputs) ! i) = fst (main_step w outdir (inputs ! i))"
    using same_inputs_refl i d by (rule main_loop_isolated)
  then show "snd (fst (main_loop w outdir inputs) ! i) = output_path outdir (inputs ! i)"
    by (simp add: main_step_written [OF f d r o])
  show "\<exists>n. files (snd (main_loop w outdir inputs)) (output_path outdir (inputs ! i))
                  = Some (Markdown_file
                      (markdown_of (basename (inputs ! i)) (utcnow w n) body_text))"
    using i d f r o l by (rule main_loop_file_written)
next
  fix q assume "\<forall>p \<in> set inputs. output_path outdir p \<noteq> q"
  then show "files (snd (main_loop w outdir inputs)) q = files w q"
    by (rule main_loop_files_other)
qed

text \<open>
  Three inputs of which the second is not a package: the first and third are reported
  with their output paths and their Markdown files are in the final world.
\<close>

theorem batch_report_witness:
  "map fst (fst (main_loop
      (world_of [(''a.docx'', Package_file (package_of (w_document [w_p ''A'']))),
                 (''b.docx'', Package_file (not_a_package ''b.docx'')),
                 (''c.docx'', Package_file (package_of (w_document [w_p ''C''])))] True)
      ''out'' [''a.docx'', ''b.docx'', ''c.docx'']))
     = [''a.docx'', ''b.docx'', ''c.docx'']
   \<and> map snd (fst (main_loop
      (world_of [(''a.docx'', Package_file (package_of (w_document [w_p ''A'']))),
                 (''b.docx'', Package_file (not_a_package ''b.docx'')),
                 (''c.docx'', Package_file (package_of (w_document [w_p ''C''])))] True)
      ''out'' [''a.docx'', ''b.docx'', ''c.docx'']))
     = [''out/a.md'', ''ERROR: File is not a zip file'', ''out/c.md'']
   \<and> files (snd (main_loop
      (world_of [(''a.docx'', Package_file (package_of (w_document [w_p ''A'']))),
                 (''b.docx'', Package_file (not_a_package ''b.docx'')),
                 (''c.docx'', Package_file (package_of (w_document [w_p ''C''])))] True)
      ''out'' [''a.docx'', ''b.docx'', ''c.docx''])) ''out/a.md''
     = Some (Markdown_file (markdown_of ''a.docx'' ''2024-01-01T00:00:00'' ''A''))
   \<and> files (snd (main_loop
      (world_of [(''a.docx'', Package_file (package_of (w_document [w_p ''A'']))),
                 (''b.docx'', Package_file (not_a_package ''b.docx'')),
                 (''c.docx'', Package_file (package_of (w_document [w_p ''C''])))] True)
      ''out'' [''a.docx'', ''b.docx'', ''c.docx''])) ''out/c.md''
     = Some (Markdown_file (markdown_of ''c.docx'' ''2024-01-01T00:00:00'' ''C''))"
proof -
  let ?w = "world_of [(''a.docx'', Package_file (package_of (w_document [w_p ''A'']))),
                 (''b.docx'', Package_file (not_a_package ''b.docx'')),
                 (''c.docx'', Package_file (package_of (w_document [w_p ''C''])))] True"
  let ?inputs = "[''a.docx'', ''b.docx'', ''c.docx'']"
  let ?r = "fst (main_loop ?w ''out'' ?inputs)"
  let ?fin = "snd (main_loop ?w ''out'' ?inputs)"
  have a: "fst (main_step ?w ''out'' ''a.docx'') = ''out/a.md''" by code_simp
  have b: "fst (main_step ?w ''out'' ''b.docx'') = ''ERROR: File is not a zip file''" by code_simp
  have c: "fst (main_step ?w ''out'' ''c.docx'') = ''out/c.md''" by code_simp
  have e: "endswith (lower ''a.docx'') ''.docx''" "endswith (lower ''b.docx'') ''.docx''"
    "endswith (lower ''c.docx'') ''.docx''" by code_simp+
  have op: "output_path ''out'' ''a.docx'' = ''out/a.md''"
    "output_path ''out'' ''b.docx'' = ''out/b.md''"
    "output_path ''out'' ''c.docx'' = ''out/c.md''" by code_simp+
  have bn: "basename ''a.docx'' = ''a.docx''" "basename ''c.docx'' = ''c.docx''" by code_simp+
  have ex: "files ?w ''a.docx'' \<noteq> None" "files ?w ''c.docx'' \<noteq> None"
    by (simp_all add: world_of_def)
  have rd: "read_docx_text (HAS_PYTHON_DOCX ?w) (package_at ?w ''a.docx'') = Inr ''A''"
    "read_docx_text (HAS_PYTHON_DOCX ?w) (package_at ?w ''c.docx'') = Inr ''C''"
    by code_simp+
  have oe: "\<And>p. open_error ?w p = None" by (simp add: world_of_def)
  have ut: "\<And>n. utcnow ?w n = ''2024-01-01T00:00:00''" by (simp add: world_of_def)
  note r = batch_report [of ?w "''out''" ?inputs]
  from r have m: "map fst ?r = ?inputs" by blast
  from r have iso: "\<And>i. i < length ?inputs \<Longrightarrow> endswith (lower (?inputs ! i)) ''.docx'' \<Longrightarrow>
      snd (?r ! i) = fst (main_step ?w ''out'' (?inputs ! i))" by blast
  from r have wr: "\<And>i body_text. i < length ?inputs \<Longrightarrow>
         endswith (lower (?inputs ! i)) ''.docx'' \<and> files ?w (?inputs ! i) \<noteq> None
         \<and> read_docx_text (HAS_PYTHON_DOCX ?w) (package_at ?w (?inputs ! i)) = Inr body_text
         \<and> open_error ?w (output_path ''out'' (?inputs ! i)) = None
         \<and> (\<forall>j<length ?inputs. i < j \<longrightarrow>
               output_path ''out'' (?inputs ! j) \<noteq> output_path ''out'' (?inputs ! i))
         \<Longrightarrow> \<exists>n. files ?fin (output_path ''out'' (?inputs ! i))
                  = Some (Markdown_file
                      (markdown_of (basename (?inputs ! i)) (utcnow ?w n) body_text))"
    by blast
  have 0: "snd (?r ! 0) = ''out/a.md''" using iso [of 0] e a by simp
  have 1: "snd (?r ! 1) = ''ERROR: File is not a zip file''" using iso [of 1] e b by simp
  have 2: "snd (?r ! 2) = ''out/c.md''" using iso [of 2] e c by simp
  from m have len: "length ?r = 3" by (metis length_map length_Cons list.size(3) numeral_3_eq_3)
  have "map snd ?r = [snd (?r ! 0), snd (?r ! 1), snd (?r ! 2)]"
  proof (rule nth_equalityI)
    show "length (map snd ?r) = length [snd (?r ! 0), snd (?r ! 1), snd (?r ! 2)]"
      using len by simp
  next
    fix i assume "i < length (map snd ?r)"
    then have "i < 3" using len by simp
    then have "i = 0 \<or> i = 1 \<or> i = 2" by arith
    then show "map snd ?r ! i = [snd (?r ! 0), snd (?r ! 1), snd (?r ! 2)] ! i"
      using len by auto
  qed
  with 0 1 2 have ms: "map snd ?r = [''out/a.md'', ''ERROR: File is not a zip file'', ''out/c.md'']"
    by (simp only:)
  have la: "\<forall>j<length ?inputs. 0 < j \<longrightarrow>
               output_path ''out'' (?inputs ! j) \<noteq> output_path ''out'' (?inputs ! 0)"
  proof (intro allI impI)
    fix j assume "j < length ?inputs" and "0 < j"
    then have "j = 1 \<or> j = 2" by auto
    then show "output_path ''out'' (?inputs ! j) \<noteq> output_path ''out'' (?inputs ! 0)"
      using op by auto
  qed
  have lc: "\<forall>j<length ?inputs. 2 < j \<longrightarrow>
               output_path ''out'' (?inputs ! j) \<noteq> output_path ''out'' (?inputs ! 2)"
    by simp
  have "\<exists>n. files ?fin (output_path ''out'' (?inputs ! 0))
        = Some (Markdown_file (markdown_of (basename (?inputs ! 0)) (utcnow ?w n) ''A''))"
    using e ex rd oe la by (intro wr) simp_all
  then have fa: "files ?fin ''out/a.md''
        = Some (Markdown_file (markdown_of ''a.docx'' ''2024-01-01T00:00:00'' ''A''))"
    using op bn ut by simp
  have "\<exists>n. files ?fin (output_path ''out'' (?inputs ! 2))
        = Some (Markdown_file (markdown_of (basename (?inputs ! 2)) (utcnow ?w n) ''C''))"
    using e ex rd oe lc by (intro wr) simp_all
  then have fc: "files ?fin ''out/c.md''
        = Some (Markdown_file (markdown_of ''c.docx'' ''2024-01-01T00:00:00'' ''C''))"
    using op bn ut by simp
  from m ms fa fc show ?thesis by (simp only: simp_thms)
qed

section \<open>At most one extension is removed\<close>

text \<open>
  C10. For a basename in which \<open>version formulaid\<close> does not occur (in any case of the
  letters), \<^verbatim>\<open>sanitize_basename\<close> removes one trailing \<^verbatim>\<open>.docx\<close> and no more: a basename
  ending in \<^verbatim>\<open>.docx.docx\<close> keeps its inner \<^verbatim>\<open>.docx\<close>, and \<^verbatim>\<open>report.docx.docx\<close> is written
  out as \<^verbatim>\<open>report.docx.md\<close>.
\<close>

theorem sanitize_removes_one_docx:
  assumes "\<not> contains ''version formulaid'' (lower b)"
  shows "(\<forall>x e. b = x @ e \<and> lower e = ''.docx'' \<longrightarrow> sanitize_basename b = strip x)
   \<and> (\<forall>y e1 e2. b = y @ e1 @ e2 \<and> lower e1 = ''.docx'' \<and> lower e2 = ''.docx'' \<longrightarrow>
         sanitize_basename b = dropWhile isspace y @ e1)
   \<and> sanitize_basename ''report.docx.docx'' @ ''.md'' = ''report.docx.md''"
proof (intro conjI allI impI)
  from assms have no: "\<not> ci_occurs ''version formulaid'' b" by (simp add: contains_lower_iff)
  {
    fix x e assume a: "b = x @ e \<and> lower e = ''.docx''"
    have "\<not> ci_occurs ''version formulaid'' x"
      using no a ci_occurs_append [of "''version formulaid''" x "[]" e] by auto
    with a show "sanitize_basename b = strip x" by (simp add: sanitize_basename_plain)
  }
  {
    fix y e1 e2 assume a: "b = y @ e1 @ e2 \<and> lower e1 = ''.docx'' \<and> lower e2 = ''.docx''"
    have "\<not> ci_occurs ''version formulaid'' (y @ e1)"
      using no a ci_occurs_append [of "''version formulaid''" "y @ e1" "[]" e2] by auto
    with a have "sanitize_basename ((y @ e1) @ e2) = strip (y @ e1)"
      by (intro sanitize_basename_plain) simp_all
    moreover from a have "e1 \<noteq> []" "\<not> isspace (hd e1)" "\<not> isspace (last e1)"
      using docx_ext_shape by blast+
    then have "strip (y @ e1) = dropWhile isspace y @ e1" by (rule strip_append_ext)
    ultimately show "sanitize_basename b = dropWhile isspace y @ e1" using a by simp
  }
  show "sanitize_basename ''report.docx.docx'' @ ''.md'' = ''report.docx.md''" by code_simp
qed

text \<open>A name with two extensions in different cases: the inner one stays as it is.\<close>

theorem sanitize_removes_one_docx_witness:
  "\<not> contains ''version formulaid'' (lower ''Notes.DOCX.docx'')
   \<and> sanitize_basename ''Notes.DOCX.docx'' = ''Notes.DOCX''"
proof -
  have n: "\<not> contains ''version formulaid'' (lower ''Notes.DOCX.docx'')" by code_simp
  have d: "lower ''.DOCX'' = ''.docx''" "lower ''.docx'' = ''.docx''" by code_simp+
  have "''Notes.DOCX.docx'' = ''Notes'' @ ''.DOCX'' @ ''.docx''" by simp
  with sanitize_removes_one_docx [OF n] d
  have "sanitize_basename ''Notes.DOCX.docx'' = dropWhile isspace ''Notes'' @ ''.DOCX''"
    by blast
  moreover have "dropWhile isspace ''Notes'' = ''Notes''" by code_simp
  ultimately show ?thesis using n by simp
qed

section \<open>The output name\<close>

text \<open>
  Two names on which the output name is not the input name without its extension and
  suffix: a blank in front of the name is trimmed although no suffix is present, and the
  suffix is removed although neither a comma nor a blank stands in front of it.
\<close>

theorem sanitize_trims_and_needs_no_separator:
  "\<not> ci_occurs ''version formulaid'' '' a.docx''
   \<and> sanitize_basename '' a.docx'' @ ''.md'' = ''a.md''
   \<and> sanitize_basename ''MyVersion FormulaID 1.docx'' @ ''.md'' = ''My.md''"
proof -
  have "\<not> contains ''version formulaid'' (lower '' a.docx'')" by code_simp
  then have "\<not> ci_occurs ''version formulaid'' '' a.docx''" by (simp only: contains_lower_iff simp_thms)
  moreover have "sanitize_basename '' a.docx'' @ ''.md'' = ''a.md''" by code_simp
  moreover have "sanitize_basename ''MyVersion FormulaID 1.docx'' @ ''.md'' = ''My.md''"
    by code_simp
  ultimately show ?thesis by (simp only: simp_thms)
qed

text \<open>
  C6 (amended). For a basename that ends in \<^verbatim>\<open>.docx\<close> (in any case of the letters) the
  output name is derived by removing that extension, then everything from the first
  occurrence of \<open>Version FormulaID\<close> (in any case) to the end, when no newline follows it,
  together with the whitespace directly in front of it and one comma in front of that
  whitespace, both optional, then trimming whitespace at both ends, then appending
  \<^verbatim>\<open>.md\<close>. When \<open>Version FormulaID\<close> does not occur, the name passes through with only
  the whitespace at its ends trimmed; a name that merely contains the word \<open>Version\<close>
  is not cut. \<^verbatim>\<open>Policy, Version FormulaID 7.2 (final).docx\<close> maps to \<^verbatim>\<open>Policy.md\<close> and
  \<^verbatim>\<open>plain.docx\<close> to \<^verbatim>\<open>plain.md\<close>.
\<close>

theorem sanitize_basename_output_name:
  "(\<forall>stem e. b = stem @ e \<and> lower e = ''.docx'' \<and> \<not> ci_occurs ''version formulaid'' stem
      \<longrightarrow> sanitize_basename b @ ''.md'' = strip stem @ ''.md'')
   \<and> (\<forall>pre v rest e. b = pre @ v @ rest @ e \<and> lower e = ''.docx''
        \<and> lower v = ''version formulaid''
        \<and> \<not> ci_occurs ''version formulaid'' (pre @ butlast v) \<and> NL \<notin> set rest
      \<longrightarrow> sanitize_basename b @ ''.md'' = strip (cut_separator pre) @ ''.md'')
   \<and> sanitize_basename ''Policy, Version FormulaID 7.2 (final).docx'' @ ''.md'' = ''Policy.md''
   \<and> sanitize_basename ''plain.docx'' @ ''.md'' = ''plain.md''"
proof (intro conjI allI impI)
  {
    fix stem e
    assume a: "b = stem @ e \<and> lower e = ''.docx'' \<and> \<not> ci_occurs ''version formulaid'' stem"
    then have "sanitize_basename (stem @ e) = strip stem"
      by (intro sanitize_basename_plain) blast+
    with a show "sanitize_basename b @ ''.md'' = strip stem @ ''.md''" by simp
  }
  {
    fix pre v rest e
    assume a: "b = pre @ v @ rest @ e \<and> lower e = ''.docx''
        \<and> lower v = ''version formulaid''
        \<and> \<not> ci_occurs ''version formulaid'' (pre @ butlast v) \<and> NL \<notin> set rest"
    then have e: "lower e = ''.docx''" and v: "lower v = ''version formulaid''"
      and f: "\<not> ci_occurs ''version formulaid'' (pre @ butlast v)" and r: "NL \<notin> set rest"
      by blast+
    have "re_sub m_docx_ext [] ((pre @ v @ rest) @ e) = pre @ v @ rest"
      using e by (rule re_sub_docx_ext)
    moreover have "re_sub m_version_suffix [] (pre @ v @ rest) = cut_separator pre"
      using v f r by (rule re_sub_version_suffix_cut)
    ultimately have "sanitize_basename ((pre @ v @ rest) @ e) = strip (cut_separator pre)"
      by (simp only: sanitize_basename_def Let_def)
    with a show "sanitize_basename b @ ''.md'' = strip (cut_separator pre) @ ''.md''" by simp
  }
  show "sanitize_basename ''Policy, Version FormulaID 7.2 (final).docx'' @ ''.md'' = ''Policy.md''"
    by code_simp
  show "sanitize_basename ''plain.docx'' @ ''.md'' = ''plain.md''" by code_simp
qed

text \<open>
  A name with the word \<open>Version\<close> in front of a suffix in other letter cases, and a
  name with the word \<open>Version\<close> and no suffix.
\<close>

theorem sanitize_basename_output_name_witness:
  "sanitize_basename ''Version notes , VERSION formulaID v2).DOCX'' @ ''.md'' = ''Version notes.md''
   \<and> sanitize_basename '' Version history.docx'' @ ''.md'' = ''Version history.md''"
proof -
  let ?b = "''Version notes , VERSION formulaID v2).DOCX''"
  have d: "?b = ''Version notes , '' @ ''VERSION formulaID'' @ '' v2)'' @ ''.DOCX''" by simp
  have e: "lower ''.DOCX'' = ''.docx''" by code_simp
  have v: "lower ''VERSION formulaID'' = ''version formulaid''" by code_simp
  have "\<not> contains ''version formulaid'' (lower (''Version notes , '' @ butlast ''VERSION formulaID''))"
    by code_simp
  then have f: "\<not> ci_occurs ''version formulaid'' (''Version notes , '' @ butlast ''VERSION formulaID'')"
    by (simp only: contains_lower_iff simp_thms)
  have r: "NL \<notin> set '' v2)''" by code_simp
  have c: "strip (cut_separator ''Version notes , '') = ''Version notes''" by code_simp
  from sanitize_basename_output_name [of ?b] d e v f r
  have 1: "sanitize_basename ?b @ ''.md'' = strip (cut_separator ''Version notes , '') @ ''.md''"
    by blast
  let ?p = "'' Version history.docx''"
  have d2: "?p = '' Version history'' @ ''.docx''" by simp
  have e2: "lower ''.docx'' = ''.docx''" by code_simp
  have "\<not> contains ''version formulaid'' (lower '' Version history'')" by code_simp
  then have f2: "\<not> ci_occurs ''version formulaid'' '' Version history''"
    by (simp only: contains_lower_iff simp_thms)
  have c2: "strip '' Version history'' = ''Version history''" by code_simp
  from sanitize_basename_output_name [of ?p] d2 e2 f2
  have 2: "sanitize_basename ?p @ ''.md'' = strip '' Version history'' @ ''.md''"
    by blast
  from 1 2 c c2 show ?thesis by simp
qed

end
